theory Spec2Isabelle
  imports Complex_Main
begin

unbundle bit_operations_syntax

section \<open>The Bancor formula, Python port (FormulaSolidityPort)\<close>

text \<open>
  The module is written for Python 2: on integers its \<open>/\<close> is floor division, which is
  \<open>div\<close> on \<open>int\<close>, and a zero divisor raises \<open>ZeroDivisionError\<close>. Python integers are
  unbounded, so every value is an \<open>int\<close>. Shift counts, loop counters and table
  indices never go below zero in the module and are \<open>nat\<close>; \<open>x >> n\<close> is
  \<open>x div 2 ^ n\<close> and \<open>x << n\<close> is \<open>x * 2 ^ n\<close>.

  Every failure of the module is an \<open>assert\<close>. The model keeps the place of the assertion
  that failed: the validation of the arguments, the checked arithmetic, the bound on
  the numerator of \<open>ln\<close>, and the \<open>assert(False)\<close> of the table search.
\<close>

datatype assertion =
    InvalidArgument
  | ArithmeticOverflow
  | ArithmeticUnderflow
  | NumeratorTooLarge
  | PrecisionRangeExceeded

datatype error = AssertionError assertion | ZeroDivisionError

subsection \<open>Constants\<close>

definition MAX_CRR :: int where
  "MAX_CRR = 1000000"

definition ONE :: int where
  "ONE = 1"

definition MIN_PRECISION :: nat where
  "MIN_PRECISION = 32"

definition MAX_PRECISION :: nat where
  "MAX_PRECISION = 127"

definition FIXED_1 :: int where
  "FIXED_1 = 0x080000000000000000000000000000000"

definition FIXED_2 :: int where
  "FIXED_2 = 0x100000000000000000000000000000000"

definition MAX_NUM :: int where
  "MAX_NUM = 0x1ffffffffffffffffffffffffffffffff"

definition LN2_MANTISSA :: int where
  "LN2_MANTISSA = 0x2c5c85fdf473de6af278ece600fcbda"

definition LN2_EXPONENT :: nat where
  "LN2_EXPONENT = 122"

text \<open>
  \<open>maxExpArray\<close> after \<open>BancorFormula()\<close> has run at import: 128 entries, the first 32
  left at 0, the entries 32 to 127 as assigned.
\<close>

definition maxExpArray :: "int list" where
  "maxExpArray = replicate 32 0 @
    [
     0x1c35fedd14ffffffffffffffffffffffff,
     0x1b0ce43b323fffffffffffffffffffffff,
     0x19f0028ec1ffffffffffffffffffffffff,
     0x18ded91f0e7fffffffffffffffffffffff,
     0x17d8ec7f0417ffffffffffffffffffffff,
     0x16ddc6556cdbffffffffffffffffffffff,
     0x15ecf52776a1ffffffffffffffffffffff,
     0x15060c256cb2ffffffffffffffffffffff,
     0x1428a2f98d72ffffffffffffffffffffff,
     0x13545598e5c23fffffffffffffffffffff,
     0x1288c4161ce1dfffffffffffffffffffff,
     0x11c592761c666fffffffffffffffffffff,
     0x110a688680a757ffffffffffffffffffff,
     0x1056f1b5bedf77ffffffffffffffffffff,
     0x0faadceceeff8bffffffffffffffffffff,
     0x0f05dc6b27edadffffffffffffffffffff,
     0x0e67a5a25da4107fffffffffffffffffff,
     0x0dcff115b14eedffffffffffffffffffff,
     0x0d3e7a392431239fffffffffffffffffff,
     0x0cb2ff529eb71e4fffffffffffffffffff,
     0x0c2d415c3db974afffffffffffffffffff,
     0x0bad03e7d883f69bffffffffffffffffff,
     0x0b320d03b2c343d5ffffffffffffffffff,
     0x0abc25204e02828dffffffffffffffffff,
     0x0a4b16f74ee4bb207fffffffffffffffff,
     0x09deaf736ac1f569ffffffffffffffffff,
     0x0976bd9952c7aa957fffffffffffffffff,
     0x09131271922eaa606fffffffffffffffff,
     0x08b380f3558668c46fffffffffffffffff,
     0x0857ddf0117efa215bffffffffffffffff,
     0x07ffffffffffffffffffffffffffffffff,
     0x07abbf6f6abb9d087fffffffffffffffff,
     0x075af62cbac95f7dfa7fffffffffffffff,
     0x070d7fb7452e187ac13fffffffffffffff,
     0x06c3390ecc8af379295fffffffffffffff,
     0x067c00a3b07ffc01fd6fffffffffffffff,
     0x0637b647c39cbb9d3d27ffffffffffffff,
     0x05f63b1fc104dbd39587ffffffffffffff,
     0x05b771955b36e12f7235ffffffffffffff,
     0x057b3d49dda84556d6f6ffffffffffffff,
     0x054183095b2c8ececf30ffffffffffffff,
     0x050a28be635ca2b888f77fffffffffffff,
     0x04d5156639708c9db33c3fffffffffffff,
     0x04a23105873875bd52dfdfffffffffffff,
     0x0471649d87199aa990756fffffffffffff,
     0x04429a21a029d4c1457cfbffffffffffff,
     0x0415bc6d6fb7dd71af2cb3ffffffffffff,
     0x03eab73b3bbfe282243ce1ffffffffffff,
     0x03c1771ac9fb6b4c18e229ffffffffffff,
     0x0399e96897690418f785257fffffffffff,
     0x0373fc456c53bb779bf0ea9fffffffffff,
     0x034f9e8e490c48e67e6ab8bfffffffffff,
     0x032cbfd4a7adc790560b3337ffffffffff,
     0x030b50570f6e5d2acca94613ffffffffff,
     0x02eb40f9f620fda6b56c2861ffffffffff,
     0x02cc8340ecb0d0f520a6af58ffffffffff,
     0x02af09481380a0a35cf1ba02ffffffffff,
     0x0292c5bdd3b92ec810287b1b3fffffffff,
     0x0277abdcdab07d5a77ac6d6b9fffffffff,
     0x025daf6654b1eaa55fd64df5efffffffff,
     0x0244c49c648baa98192dce88b7ffffffff,
     0x022ce03cd5619a311b2471268bffffffff,
     0x0215f77c045fbe885654a44a0fffffffff,
     0x01ffffffffffffffffffffffffffffffff,
     0x01eaefdbdaaee7421fc4d3ede5ffffffff,
     0x01d6bd8b2eb257df7e8ca57b09bfffffff,
     0x01c35fedd14b861eb0443f7f133fffffff,
     0x01b0ce43b322bcde4a56e8ada5afffffff,
     0x019f0028ec1fff007f5a195a39dfffffff,
     0x018ded91f0e72ee74f49b15ba527ffffff,
     0x017d8ec7f04136f4e5615fd41a63ffffff,
     0x016ddc6556cdb84bdc8d12d22e6fffffff,
     0x015ecf52776a1155b5bd8395814f7fffff,
     0x015060c256cb23b3b3cc3754cf40ffffff,
     0x01428a2f98d728ae223ddab715be3fffff,
     0x013545598e5c23276ccf0ede68034fffff,
     0x01288c4161ce1d6f54b7f61081194fffff,
     0x011c592761c666aa641d5a01a40f17ffff,
     0x0110a688680a7530515f3e6e6cfdcdffff,
     0x01056f1b5bedf75c6bcb2ce8aed428ffff,
     0x00faadceceeff8a0890f3875f008277fff,
     0x00f05dc6b27edad306388a600f6ba0bfff,
     0x00e67a5a25da41063de1495d5b18cdbfff,
     0x00dcff115b14eedde6fc3aa5353f2e4fff,
     0x00d3e7a3924312399f9aae2e0f868f8fff,
     0x00cb2ff529eb71e41582cccd5a1ee26fff,
     0x00c2d415c3db974ab32a51840c0b67edff,
     0x00bad03e7d883f69ad5b0a186184e06bff,
     0x00b320d03b2c343d4829abd6075f0cc5ff,
     0x00abc25204e02828d73c6e80bcdb1a95bf,
     0x00a4b16f74ee4bb2040a1ec6c15fbbf2df,
     0x009deaf736ac1f569deb1b5ae3f36c130f,
     0x00976bd9952c7aa957f5937d790ef65037,
     0x009131271922eaa6064b73a22d0bd4f2bf,
     0x008b380f3558668c46c91c49a2f8e967b9,
     0x00857ddf0117efa215952912839f6473e6
    ]"

subsection \<open>Checked arithmetic\<close>

definition safeMul :: "int \<Rightarrow> int \<Rightarrow> error + int" where
  "safeMul x y =
     (if x * y < 2 ^ 256 then Inr (x * y) else Inl (AssertionError ArithmeticOverflow))"

definition safeAdd :: "int \<Rightarrow> int \<Rightarrow> error + int" where
  "safeAdd x y =
     (if x + y < 2 ^ 256 then Inr (x + y) else Inl (AssertionError ArithmeticOverflow))"

definition safeSub :: "int \<Rightarrow> int \<Rightarrow> error + int" where
  "safeSub x y =
     (if x - y \<ge> 0 then Inr (x - y) else Inl (AssertionError ArithmeticUnderflow))"

subsection \<open>floorLog2\<close>

text \<open>The \<open>while (_n > 1)\<close> loop of the branch \<open>_n < 256\<close>.\<close>

function floorLog2_while :: "int \<Rightarrow> nat \<Rightarrow> nat" where
  "floorLog2_while n res =
     (if n > 1 then floorLog2_while (n div 2) (res + 1) else res)"
  by pat_completeness auto
termination
  by (relation "measure (\<lambda>(n, res). nat n)") auto

declare floorLog2_while.simps [simp del]

text \<open>The \<open>for s in [128, 64, 32, 16, 8, 4, 2, 1]\<close> loop of the other branch.\<close>

fun floorLog2_for :: "nat list \<Rightarrow> int \<Rightarrow> nat \<Rightarrow> nat" where
  "floorLog2_for [] n res = res"
| "floorLog2_for (s # ss) n res =
     (if n \<ge> ONE * 2 ^ s then floorLog2_for ss (n div 2 ^ s) (res OR s)
      else floorLog2_for ss n res)"

definition floorLog2 :: "int \<Rightarrow> nat" where
  "floorLog2 n =
     (if n < 256 then floorLog2_while n 0
      else floorLog2_for (map (\<lambda>k. 2 ^ (8 - 1 - k)) [0..<8]) n 0)"

subsection \<open>The search in the table\<close>

function findPosition_while :: "int \<Rightarrow> nat \<Rightarrow> nat \<Rightarrow> nat \<times> nat" where
  "findPosition_while x lo hi =
     (if lo + 1 < hi then
        (let mid = (lo + hi) div 2 in
         if maxExpArray ! mid \<ge> x then findPosition_while x mid hi
         else findPosition_while x lo mid)
      else (lo, hi))"
  by pat_completeness auto
termination
  by (relation "measure (\<lambda>(x, lo, hi). hi - lo)") auto

declare findPosition_while.simps [simp del]

definition findPositionInMaxExpArray :: "int \<Rightarrow> error + nat" where
  "findPositionInMaxExpArray x =
     (case findPosition_while x MIN_PRECISION MAX_PRECISION of (lo, hi) \<Rightarrow>
        if maxExpArray ! hi \<ge> x then Inr hi
        else if maxExpArray ! lo \<ge> x then Inr lo
        else Inl (AssertionError PrecisionRangeExceeded))"

subsection \<open>fixedExp\<close>

text \<open>
  The source is 32 unrolled pairs \<open>xi = (xi * _x) >> _precision; res += xi * c\<close>; the
  coefficients in its order:
\<close>

definition fixedExp_coefficients :: "int list" where
  "fixedExp_coefficients =
    [
     0x3442c4e6074a82f1797f72ac0000000,
     0x116b96f757c380fb287fd0e40000000,
     0x45ae5bdd5f0e03eca1ff4390000000,
     0xdefabf91302cd95b9ffda50000000,
     0x2529ca9832b22439efff9b8000000,
     0x54f1cf12bd04e516b6da88000000,
     0xa9e39e257a09ca2d6db51000000,
     0x12e066e7b839fa050c309000000,
     0x1e33d7d926c329a1ad1a800000,
     0x2bee513bdb4a6b19b5f800000,
     0x3a9316fa79b88eccf2a00000,
     0x48177ebe1fa812375200000,
     0x5263fe90242dcbacf00000,
     0x57e22099c030d94100000,
     0x57e22099c030d9410000,
     0x52b6b54569976310000,
     0x4985f67696bf748000,
     0x3dea12ea99e498000,
     0x31880f2214b6e000,
     0x25bcff56eb36000,
     0x1b722e10ab1000,
     0x1317c70077000,
     0xcba84aafa00,
     0x82573a0a00,
     0x5035ad900,
     0x2f881b00,
     0x1b29340,
     0xefc40,
     0x7fe0,
     0x420,
     0x21,
     0x1
    ]"

fun fixedExp_terms :: "int list \<Rightarrow> int \<Rightarrow> nat \<Rightarrow> int \<Rightarrow> int \<Rightarrow> int" where
  "fixedExp_terms [] x precision xi res = res"
| "fixedExp_terms (c # cs) x precision xi res =
     (let xi' = (xi * x) div 2 ^ precision
      in fixedExp_terms cs x precision xi' (res + xi' * c))"

definition fixedExp :: "int \<Rightarrow> nat \<Rightarrow> int" where
  "fixedExp x precision =
     fixedExp_terms fixedExp_coefficients x precision x 0
       div 0x688589cc0e9505e2f2fee5580000000 + x + ONE * 2 ^ precision"

subsection \<open>ln\<close>

text \<open>
  The loop \<open>for i in range(MAX_PRECISION, 0, -1)\<close>: the counter \<open>i\<close> is \<open>Suc k\<close>, so
  \<open>ONE << (i - 1)\<close> is \<open>ONE * 2 ^ k\<close>.
\<close>

fun ln_for :: "nat \<Rightarrow> int \<Rightarrow> int \<Rightarrow> int" where
  "ln_for 0 x res = res"
| "ln_for (Suc k) x res =
     (let x' = (x * x) div FIXED_1
      in if x' \<ge> FIXED_2 then ln_for k (x' div 2) (res + ONE * 2 ^ k)
         else ln_for k x' res)"

definition ln_fn :: "int \<Rightarrow> int \<Rightarrow> error + int" where
  "ln_fn numerator denominator =
     (if \<not> numerator \<le> MAX_NUM then Inl (AssertionError NumeratorTooLarge)
      else if denominator = 0 then Inl ZeroDivisionError
      else
        (let x0 = numerator * FIXED_1 div denominator;
             (x, res) =
               (if x0 \<ge> FIXED_2 then
                  (let count = floorLog2 (x0 div FIXED_1)
                   in (x0 div 2 ^ count, int count * FIXED_1))
                else (x0, 0));
             res' = (if x > FIXED_1 then ln_for MAX_PRECISION x res else res)
         in Inr ((res' * LN2_MANTISSA) div 2 ^ LN2_EXPONENT)))"

subsection \<open>power\<close>

definition power_fn :: "int \<Rightarrow> int \<Rightarrow> int \<Rightarrow> int \<Rightarrow> error + (int \<times> nat)" where
  "power_fn baseN baseD expN expD =
     (case ln_fn baseN baseD of
        Inl e \<Rightarrow> Inl e
      | Inr l \<Rightarrow>
          if expD = 0 then Inl ZeroDivisionError
          else
            (let lnBaseTimesExp = l * expN div expD in
             case findPositionInMaxExpArray lnBaseTimesExp of
               Inl e \<Rightarrow> Inl e
             | Inr precision \<Rightarrow>
                 Inr (fixedExp (lnBaseTimesExp div 2 ^ (MAX_PRECISION - precision)) precision,
                      precision)))"

subsection \<open>The two return formulas\<close>

definition calculatePurchaseReturn :: "int \<Rightarrow> int \<Rightarrow> int \<Rightarrow> int \<Rightarrow> error + int" where
  "calculatePurchaseReturn supply reserveBalance reserveRatio depositAmount =
     (if \<not> (supply > 0 \<and> reserveBalance > 0 \<and> reserveRatio > 0 \<and> reserveRatio \<le> MAX_CRR)
      then Inl (AssertionError InvalidArgument)
      else if depositAmount = 0 then Inr 0
      else if reserveRatio = MAX_CRR then
        (case safeMul supply depositAmount of
           Inl e \<Rightarrow> Inl e
         | Inr m \<Rightarrow> Inr (m div reserveBalance))
      else
        (case safeAdd depositAmount reserveBalance of
           Inl e \<Rightarrow> Inl e
         | Inr baseN \<Rightarrow>
             (case power_fn baseN reserveBalance reserveRatio MAX_CRR of
                Inl e \<Rightarrow> Inl e
              | Inr (result, precision) \<Rightarrow>
                  (case safeMul supply result of
                     Inl e \<Rightarrow> Inl e
                   | Inr m \<Rightarrow> Inr (m div 2 ^ precision - supply)))))"

definition calculateSaleReturn :: "int \<Rightarrow> int \<Rightarrow> int \<Rightarrow> int \<Rightarrow> error + int" where
  "calculateSaleReturn supply reserveBalance reserveRatio sellAmount =
     (if \<not> (supply > 0 \<and> reserveBalance > 0 \<and> reserveRatio > 0 \<and> reserveRatio \<le> MAX_CRR
             \<and> sellAmount \<le> supply)
      then Inl (AssertionError InvalidArgument)
      else if sellAmount = 0 then Inr 0
      else if sellAmount = supply then Inr reserveBalance
      else if reserveRatio = MAX_CRR then
        (case safeMul reserveBalance sellAmount of
           Inl e \<Rightarrow> Inl e
         | Inr m \<Rightarrow> Inr (m div supply))
      else
        (let baseD = supply - sellAmount in
         case power_fn supply baseD MAX_CRR reserveRatio of
           Inl e \<Rightarrow> Inl e
         | Inr (result, precision) \<Rightarrow>
             (case safeMul reserveBalance result of
                Inl e \<Rightarrow> Inl e
              | Inr temp1 \<Rightarrow>
                  (let temp2 = reserveBalance * 2 ^ precision in
                   if result = 0 then Inl ZeroDivisionError
                   else Inr ((temp1 - temp2) div result)))))"

subsection \<open>Auxiliary definitions for the proofs\<close>

text \<open>
  Not part of the module: the relation between neighbouring coefficients of
  \<open>fixedExp\<close>, used to show that they are \<open>33! / k!\<close>. Each coefficient times its index
  \<open>m\<close> is the coefficient before it (\<open>prev\<close>).
\<close>

fun coefficients_chain :: "int \<Rightarrow> int \<Rightarrow> int list \<Rightarrow> bool" where
  "coefficients_chain m prev [] = True"
| "coefficients_chain m prev (c # cs) = (c * m = prev \<and> coefficients_chain (m + 1) c cs)"

section \<open>The precision table and its search\<close>

lemma maxExpArray_length: "length maxExpArray = 128"
  by (simp add: maxExpArray_def)

lemma maxExpArray_step:
  "list_all (\<lambda>i. maxExpArray ! i > maxExpArray ! (i + 1)) [32..<127]"
  by code_simp

lemma maxExpArray_strict:
  assumes "32 \<le> i" "i < 127"
  shows "maxExpArray ! i > maxExpArray ! (i + 1)"
proof -
  have "\<forall>i\<in>set [32..<127]. maxExpArray ! i > maxExpArray ! (i + 1)"
    using maxExpArray_step unfolding list_all_iff .
  moreover have "i \<in> set [32..<127]"
    unfolding set_upt using assms by simp
  ultimately show ?thesis by blast
qed

lemma maxExpArray_antimono:
  assumes "32 \<le> i" "i \<le> j" "j \<le> 127"
  shows "maxExpArray ! j \<le> maxExpArray ! i"
  using assms(2,1,3)
proof (induction j rule: dec_induct)
  case base
  then show ?case by simp
next
  case (step n)
  then have "maxExpArray ! (n + 1) < maxExpArray ! n"
    by (intro maxExpArray_strict) auto
  with step show ?case by simp
qed

text \<open>
  C9. The table is strictly decreasing over its 96 entries: for every index \<open>i\<close> with
  \<open>32 \<le> i < 127\<close>, \<open>maxExpArray[i] > maxExpArray[i + 1]\<close>.
\<close>

theorem maxExpArray_strictly_decreasing:
  "\<forall>i. 32 \<le> i \<and> i < 127 \<longrightarrow> maxExpArray ! i > maxExpArray ! (i + 1)"
  using maxExpArray_strict by blast

theorem maxExpArray_strictly_decreasing_witness:
  "(32::nat) \<le> 61 \<and> (61::nat) < 127 \<and> maxExpArray ! 61 > maxExpArray ! (61 + 1)"
proof -
  have "maxExpArray ! 61 > maxExpArray ! (61 + 1)"
    using maxExpArray_strictly_decreasing by (rule allE [where x = 61]) simp
  then show ?thesis by simp
qed

text \<open>
  What the loop of the search leaves: two neighbouring indices inside the starting
  interval, the lower one either untouched or at an entry that is large enough, the
  upper one either untouched or at an entry that is too small.
\<close>

lemma findPosition_while_spec:
  assumes "lo < hi"
  shows "case findPosition_while x lo hi of (lo', hi') \<Rightarrow>
           lo \<le> lo' \<and> hi' = lo' + 1 \<and> hi' \<le> hi
           \<and> (lo' = lo \<or> maxExpArray ! lo' \<ge> x)
           \<and> (hi' = hi \<or> maxExpArray ! hi' < x)"
  using assms
proof (induction x lo hi rule: findPosition_while.induct)
  case (1 x lo hi)
  show ?case
  proof (cases "lo + 1 < hi")
    case False
    with "1.prems" show ?thesis
      by (subst findPosition_while.simps) simp
  next
    case True
    define mid where "mid = (lo + hi) div 2"
    have mid: "lo < mid" "mid < hi" using True by (auto simp: mid_def)
    show ?thesis
    proof (cases "maxExpArray ! mid \<ge> x")
      case ge: True
      have eq: "findPosition_while x lo hi = findPosition_while x mid hi"
        using True ge by (subst findPosition_while.simps) (simp add: mid_def Let_def)
      from "1.IH"(1)[OF True mid_def ge mid(2)] ge mid show ?thesis
        unfolding eq by (auto split: prod.splits)
    next
      case lt: False
      have eq: "findPosition_while x lo hi = findPosition_while x lo mid"
        using True lt by (subst findPosition_while.simps) (simp add: mid_def Let_def)
      from "1.IH"(2)[OF True mid_def lt mid(1)] lt mid show ?thesis
        unfolding eq by (auto split: prod.splits)
    qed
  qed
qed

lemma findPosition_cases:
  obtains (top) "maxExpArray ! 127 \<ge> x" "findPositionInMaxExpArray x = Inr 127"
  | (inner) k where "32 \<le> k" "k < 127" "maxExpArray ! k \<ge> x" "maxExpArray ! (k + 1) < x"
      "findPositionInMaxExpArray x = Inr k"
  | (none) "maxExpArray ! 32 < x"
      "findPositionInMaxExpArray x = Inl (AssertionError PrecisionRangeExceeded)"
proof -
  obtain lo hi where w: "findPosition_while x MIN_PRECISION MAX_PRECISION = (lo, hi)"
    by (cases "findPosition_while x MIN_PRECISION MAX_PRECISION")
  from findPosition_while_spec[of 32 127 x]
  have props: "32 \<le> lo" "hi = lo + 1" "hi \<le> 127"
       "lo = 32 \<or> maxExpArray ! lo \<ge> x" "hi = 127 \<or> maxExpArray ! hi < x"
    using w by (auto simp: MIN_PRECISION_def MAX_PRECISION_def)
  show thesis
  proof (cases "maxExpArray ! hi \<ge> x")
    case True
    with props have "hi = 127" by auto
    with True w show thesis
      by (intro top) (simp_all add: findPositionInMaxExpArray_def)
  next
    case hiF: False
    show thesis
    proof (cases "maxExpArray ! lo \<ge> x")
      case True
      with hiF props w show thesis
        by (intro inner[of lo]) (simp_all add: findPositionInMaxExpArray_def)
    next
      case False
      with props have "lo = 32" by auto
      with False hiF w show thesis
        by (intro none) (simp_all add: findPositionInMaxExpArray_def)
    qed
  qed
qed

text \<open>
  C8. For every \<open>x\<close>, \<open>findPositionInMaxExpArray(x)\<close> returns the highest index \<open>k\<close> in
  \<open>[32, 127]\<close> with \<open>maxExpArray[k] \<ge> x\<close> when there is one, and fails with
  \<open>PrecisionRangeExceeded\<close> exactly when every entry of \<open>[32, 127]\<close> is below \<open>x\<close>.
\<close>

theorem findPositionInMaxExpArray_highest:
  "findPositionInMaxExpArray x =
     (if \<exists>k\<in>{32..127}. maxExpArray ! k \<ge> x
      then Inr (Max {k \<in> {32..127}. maxExpArray ! k \<ge> x})
      else Inl (AssertionError PrecisionRangeExceeded))"
proof (cases x rule: findPosition_cases)
  case top
  have "Max {k \<in> {32..127}. maxExpArray ! k \<ge> x} = 127"
    by (rule Max_eqI) (use top in auto)
  moreover have "\<exists>k\<in>{32..127}. maxExpArray ! k \<ge> x"
    using top by auto
  ultimately show ?thesis using top by simp
next
  case (inner k)
  have above: "maxExpArray ! j < x" if "k < j" "j \<le> 127" for j
  proof -
    have "maxExpArray ! j \<le> maxExpArray ! (k + 1)"
      using that inner by (intro maxExpArray_antimono) auto
    with inner show ?thesis by simp
  qed
  have "Max {k \<in> {32..127}. maxExpArray ! k \<ge> x} = k"
  proof (rule Max_eqI)
    show "k \<in> {k \<in> {32..127}. maxExpArray ! k \<ge> x}" using inner by auto
    show "y \<le> k" if "y \<in> {k \<in> {32..127}. maxExpArray ! k \<ge> x}" for y
      using that above[of y] by (cases "k < y") auto
  qed simp
  moreover have "\<exists>k\<in>{32..127}. maxExpArray ! k \<ge> x"
    using inner by auto
  ultimately show ?thesis using inner by simp
next
  case none
  have "maxExpArray ! k < x" if "k \<in> {32..127}" for k
  proof -
    have "maxExpArray ! k \<le> maxExpArray ! 32"
      using that by (intro maxExpArray_antimono) auto
    with none show ?thesis by simp
  qed
  then have "\<not> (\<exists>k\<in>{32..127}. maxExpArray ! k \<ge> x)"
    by (meson not_le)
  then show ?thesis using none by simp
qed

theorem findPositionInMaxExpArray_highest_witness:
  "(\<exists>k\<in>{32..127}. maxExpArray ! k \<ge> 0)
   \<and> findPositionInMaxExpArray 0 = Inr (Max {k \<in> {32..127}. maxExpArray ! k \<ge> 0})"
proof -
  have "maxExpArray ! 127 \<ge> 0" by code_simp
  then have ex: "\<exists>k\<in>{32..127}. maxExpArray ! k \<ge> 0" by auto
  with findPositionInMaxExpArray_highest[of 0] show ?thesis by simp
qed

lemma findPosition_range:
  assumes "findPositionInMaxExpArray x = Inr k"
  shows "32 \<le> k" "k \<le> 127" "x \<le> maxExpArray ! k"
  using assms by (cases x rule: findPosition_cases; simp)+

section \<open>The shortcuts of the two return formulas\<close>

lemma floor_mult_div:
  "\<lfloor>real_of_int a * real_of_int b / real_of_int c\<rfloor> = a * b div c"
  using floor_divide_of_int_eq[of "a * b" c, where ?'a = real] by simp

text \<open>
  C6. For every valid \<open>s > 0\<close>, \<open>r > 0\<close> and \<open>c\<close> in \<open>(0, 1000000]\<close>,
  \<open>calculatePurchaseReturn(s, r, c, 0)\<close> and \<open>calculateSaleReturn(s, r, c, 0)\<close> both
  return 0; no error is raised.
\<close>

theorem zero_amount_returns_zero:
  "s > 0 \<Longrightarrow> r > 0 \<Longrightarrow> 0 < c \<Longrightarrow> c \<le> 1000000 \<Longrightarrow>
   calculatePurchaseReturn s r c 0 = Inr 0 \<and> calculateSaleReturn s r c 0 = Inr 0"
  by (simp add: calculateSaleReturn_def calculatePurchaseReturn_def MAX_CRR_def)

theorem zero_amount_returns_zero_witness:
  "(1000::int) > 0 \<and> (2000::int) > 0 \<and> (0::int) < 500000 \<and> (500000::int) \<le> 1000000
   \<and> calculatePurchaseReturn 1000 2000 500000 0 = Inr 0
   \<and> calculateSaleReturn 1000 2000 500000 0 = Inr 0"
  using zero_amount_returns_zero[of 1000 2000 500000] by simp

text \<open>
  C4. For every valid \<open>s > 0\<close>, \<open>r > 0\<close> and \<open>c\<close> in \<open>(0, 1000000]\<close>,
  \<open>calculateSaleReturn(s, r, c, s)\<close> returns exactly \<open>r\<close>: selling the whole supply
  drains the reserve.
\<close>

theorem sale_of_entire_supply:
  "s > 0 \<Longrightarrow> r > 0 \<Longrightarrow> 0 < c \<Longrightarrow> c \<le> 1000000 \<Longrightarrow> calculateSaleReturn s r c s = Inr r"
  by (simp add: calculateSaleReturn_def MAX_CRR_def)

theorem sale_of_entire_supply_witness:
  "(1000::int) > 0 \<and> (2000::int) > 0 \<and> (0::int) < 500000 \<and> (500000::int) \<le> 1000000
   \<and> calculateSaleReturn 1000 2000 500000 1000 = Inr 2000"
  using sale_of_entire_supply[of 1000 2000 500000] by simp

text \<open>
  C5, as the code has it. At \<open>reserveRatio = 1000000\<close>, for \<open>s > 0\<close> and \<open>r > 0\<close>:
  \<open>calculatePurchaseReturn(s, r, 1000000, d)\<close> returns \<open>floor(s * d / r)\<close> when
  \<open>s * d < 2^256\<close> and fails with the overflow assertion otherwise;
  \<open>calculateSaleReturn(s, r, 1000000, a)\<close> with \<open>a \<le> s\<close> returns \<open>floor(r * a / s)\<close> when
  \<open>r * a < 2^256\<close>; when \<open>r * a \<ge> 2^256\<close> it fails with the overflow assertion unless
  \<open>a = s\<close>, where the shortcut for the whole supply has already returned \<open>r\<close>
  (which is \<open>floor(r * a / s)\<close> there) without multiplying.
\<close>

theorem linear_shortcut:
  assumes "s > 0" "r > 0"
  shows "calculatePurchaseReturn s r 1000000 d =
           (if s * d < 2 ^ 256 then Inr \<lfloor>real_of_int (s * d) / real_of_int r\<rfloor>
            else Inl (AssertionError ArithmeticOverflow))
    \<and> (a \<le> s \<longrightarrow> calculateSaleReturn s r 1000000 a =
           (if a = s then Inr r
            else if r * a < 2 ^ 256 then Inr \<lfloor>real_of_int (r * a) / real_of_int s\<rfloor>
            else Inl (AssertionError ArithmeticOverflow)))
    \<and> (a = s \<longrightarrow> r = \<lfloor>real_of_int (r * a) / real_of_int s\<rfloor>)"
  using assms
  by (auto simp: calculatePurchaseReturn_def calculateSaleReturn_def MAX_CRR_def safeMul_def
      floor_mult_div)

theorem linear_shortcut_witness:
  "(1000::int) > 0 \<and> (300::int) > 0 \<and> (7::int) \<le> 1000
   \<and> calculatePurchaseReturn 1000 300 1000000 5 = Inr 16
   \<and> calculateSaleReturn 1000 300 1000000 7 = Inr 2"
proof -
  have "\<lfloor>real_of_int (1000 * 5) / real_of_int 300\<rfloor> = 16"
    by (simp add: floor_mult_div del: of_int_mult)
  moreover have "\<lfloor>real_of_int (300 * 7) / real_of_int 1000\<rfloor> = 2"
    by (simp add: floor_mult_div del: of_int_mult)
  ultimately show ?thesis
    using linear_shortcut[of 1000 300 5 7] by simp
qed

text \<open>
  The claim C5 as it is written fails where the whole supply is sold and
  \<open>r * a \<ge> 2^256\<close>: with \<open>s = r = a = 2^128\<close> the product is \<open>2^256\<close>, and the call does
  not fail with the overflow assertion.
\<close>

theorem linear_shortcut_no_overflow_counterexample:
  "\<not> ((2::int) ^ 128 * 2 ^ 128 < 2 ^ 256)
   \<and> (2::int) ^ 128 \<le> 2 ^ 128
   \<and> calculateSaleReturn (2 ^ 128) (2 ^ 128) 1000000 (2 ^ 128)
       \<noteq> Inl (AssertionError ArithmeticOverflow)"
  by (simp add: calculateSaleReturn_def MAX_CRR_def)

section \<open>Signs: what the unchecked operations rely on\<close>

lemma fixedExp_terms_ge:
  assumes "0 \<le> x" "0 \<le> xi" "list_all (\<lambda>c. 0 \<le> c) cs"
  shows "res \<le> fixedExp_terms cs x p xi res"
  using assms
proof (induction cs arbitrary: xi res)
  case Nil
  then show ?case by simp
next
  case (Cons c cs)
  let ?xi = "(xi * x) div 2 ^ p"
  have xi': "0 \<le> ?xi"
    using Cons.prems by (simp add: pos_imp_zdiv_nonneg_iff)
  have "res \<le> res + ?xi * c"
    using xi' Cons.prems by simp
  also have "\<dots> \<le> fixedExp_terms cs x p ?xi (res + ?xi * c)"
    using Cons.prems xi' by (intro Cons.IH) simp_all
  finally show ?case by (simp add: Let_def)
qed

lemma fixedExp_coefficients_nonneg: "list_all (\<lambda>c. 0 \<le> c) fixedExp_coefficients"
  by (simp add: fixedExp_coefficients_def)

lemma fixedExp_ge:
  assumes "0 \<le> x"
  shows "x + 2 ^ p \<le> fixedExp x p"
proof -
  have "0 \<le> fixedExp_terms fixedExp_coefficients x p x 0"
    using assms fixedExp_coefficients_nonneg by (intro fixedExp_terms_ge) simp_all
  then have "0 \<le> fixedExp_terms fixedExp_coefficients x p x 0
                 div 0x688589cc0e9505e2f2fee5580000000"
    by (simp add: pos_imp_zdiv_nonneg_iff)
  then show ?thesis by (simp add: fixedExp_def ONE_def)
qed

lemma ln_for_ge: "res \<le> ln_for k x res"
proof (induction k arbitrary: x res)
  case 0
  then show ?case by simp
next
  case (Suc k)
  have "res \<le> res + ONE * 2 ^ k" by (simp add: ONE_def)
  also have "\<dots> \<le> ln_for k (x * x div FIXED_1 div 2) (res + ONE * 2 ^ k)"
    by (rule Suc.IH)
  finally show ?case using Suc.IH[of res "x * x div FIXED_1"] by (simp add: Let_def)
qed

lemma ln_fn_nonneg:
  assumes "ln_fn n d = Inr l"
  shows "0 \<le> l"
proof -
  define x0 where "x0 = n * FIXED_1 div d"
  define x where "x = (if x0 \<ge> FIXED_2 then x0 div 2 ^ floorLog2 (x0 div FIXED_1) else x0)"
  define res where "res = (if x0 \<ge> FIXED_2 then int (floorLog2 (x0 div FIXED_1)) * FIXED_1 else 0)"
  define res' where "res' = (if x > FIXED_1 then ln_for MAX_PRECISION x res else res)"
  have l: "l = (res' * LN2_MANTISSA) div 2 ^ LN2_EXPONENT"
    using assms
    by (auto simp: ln_fn_def Let_def x0_def x_def res_def res'_def split: if_splits)
  have "0 \<le> res" by (simp add: res_def FIXED_1_def)
  also have "res \<le> res'" by (simp add: res'_def ln_for_ge)
  finally have "0 \<le> res' * LN2_MANTISSA" by (simp add: LN2_MANTISSA_def)
  then show ?thesis unfolding l by (simp add: pos_imp_zdiv_nonneg_iff)
qed

lemma power_fn_result:
  assumes "power_fn baseN baseD expN expD = Inr (result, precision)"
    and "0 \<le> expN" "0 < expD"
  shows "32 \<le> precision" "precision \<le> 127" "2 ^ precision \<le> result"
proof -
  from assms obtain l where l: "ln_fn baseN baseD = Inr l"
    by (auto simp: power_fn_def split: sum.splits)
  define lnBaseTimesExp where "lnBaseTimesExp = l * expN div expD"
  have pos: "findPositionInMaxExpArray lnBaseTimesExp = Inr precision"
    and res: "result = fixedExp (lnBaseTimesExp div 2 ^ (MAX_PRECISION - precision)) precision"
    using assms l by (auto simp: power_fn_def Let_def lnBaseTimesExp_def split: sum.splits)
  from findPosition_range[OF pos] show "32 \<le> precision" "precision \<le> 127" by simp_all
  have "0 \<le> l * expN" using ln_fn_nonneg[OF l] assms by simp
  then have "0 \<le> lnBaseTimesExp"
    using assms by (simp add: lnBaseTimesExp_def pos_imp_zdiv_nonneg_iff)
  then have x: "0 \<le> lnBaseTimesExp div 2 ^ (MAX_PRECISION - precision)"
    by (simp add: pos_imp_zdiv_nonneg_iff)
  from fixedExp_ge[OF x, of precision] x show "2 ^ precision \<le> result"
    unfolding res by linarith
qed

lemma power_fn_no_zero_division:
  assumes "baseD \<noteq> 0" "expD \<noteq> 0"
  shows "power_fn baseN baseD expN expD \<noteq> Inl ZeroDivisionError"
proof -
  have "ln_fn baseN baseD \<noteq> Inl ZeroDivisionError"
    using assms by (simp add: ln_fn_def Let_def split: prod.splits)
  moreover have "findPositionInMaxExpArray y \<noteq> Inl ZeroDivisionError" for y
    by (cases y rule: findPosition_cases) simp_all
  ultimately show ?thesis
    using assms by (auto simp: power_fn_def Let_def split: sum.splits)
qed

lemma le_shift_of_scaled:
  fixes s result :: int
  assumes "0 \<le> s" "2 ^ p \<le> result"
  shows "s \<le> (s * result) div 2 ^ p"
proof -
  have "s * 2 ^ p \<le> s * result"
    using assms by (intro mult_left_mono) simp_all
  then have "(s * 2 ^ p) div 2 ^ p \<le> (s * result) div 2 ^ p"
    by (intro zdiv_mono1) simp_all
  then show ?thesis by simp
qed

section \<open>The general paths of the return formulas\<close>

lemma purchase_general_cases:
  assumes "calculatePurchaseReturn s r c d = Inr t" "c \<noteq> 1000000" "d \<noteq> 0"
  obtains R p where "s > 0" "r > 0" "0 < c" "c < 1000000"
    "power_fn (d + r) r c MAX_CRR = Inr (R, p)" "t = (s * R) div 2 ^ p - s"
  using assms
  by (auto simp: calculatePurchaseReturn_def MAX_CRR_def safeAdd_def safeMul_def
      split: if_splits sum.splits prod.splits)

lemma sale_general_cases:
  assumes "calculateSaleReturn s r c a = Inr v" "c \<noteq> 1000000" "a \<noteq> 0" "a \<noteq> s"
  obtains R p where "s > 0" "r > 0" "0 < c" "c < 1000000" "a < s"
    "power_fn s (s - a) MAX_CRR c = Inr (R, p)" "v = (r * R - r * 2 ^ p) div R"
  using assms
  by (auto simp: calculateSaleReturn_def MAX_CRR_def safeMul_def Let_def
      split: if_splits sum.splits prod.splits)

lemma power_fn_numerator:
  assumes "power_fn baseN baseD expN expD = Inr x"
  shows "baseN \<le> MAX_NUM"
  using assms by (auto simp: power_fn_def ln_fn_def split: sum.splits if_splits)

section \<open>The unchecked operations of the return formulas\<close>

text \<open>
  C10. For every \<open>x \<ge> 0\<close> and every precision \<open>p\<close> in \<open>[32, 127]\<close>,
  \<open>fixedExp(x, p) \<ge> x + 2^p\<close>. Consequently, for valid \<open>s\<close>, \<open>r\<close> and \<open>c < 1000000\<close>,
  whenever \<open>power\<close> succeeds on the general path of a return formula its result is at
  least \<open>2^precision\<close>. A successful \<open>calculatePurchaseReturn\<close> on that path returns
  \<open>((supply * result) >> precision) - supply\<close> for the result and precision of
  \<open>power(depositAmount + reserveBalance, reserveBalance, reserveRatio, MAX_CRR)\<close>, the
  minuend is at least \<open>supply\<close>, and the return is nonnegative. A successful
  \<open>calculateSaleReturn\<close> on that path returns \<open>(temp1 - temp2) / result\<close> with
  \<open>temp1 = reserveBalance * result\<close> and \<open>temp2 = reserveBalance << precision\<close> for the result
  and precision of \<open>power(supply, supply - sellAmount, MAX_CRR, reserveRatio)\<close>; there
  \<open>temp1 \<ge> temp2\<close>, \<open>result\<close> is not zero, and the return is nonnegative. Neither function
  ever divides by zero.
\<close>

theorem unchecked_operations_safe:
  "(0 \<le> x \<and> 32 \<le> p \<and> p \<le> 127 \<longrightarrow> fixedExp x p \<ge> x + 2 ^ p)
   \<and> (s > 0 \<and> r > 0 \<and> 0 < c \<and> c < 1000000 \<longrightarrow>
        (\<forall>result precision.
            power_fn (d + r) r c MAX_CRR = Inr (result, precision) \<longrightarrow>
              result \<ge> 2 ^ precision \<and> (s * result) div 2 ^ precision - s \<ge> 0)
      \<and> (a < s \<longrightarrow> (\<forall>result precision.
            power_fn s (s - a) MAX_CRR c = Inr (result, precision) \<longrightarrow>
              result \<ge> 2 ^ precision \<and> r * result - r * 2 ^ precision \<ge> 0 \<and> result \<noteq> 0))
      \<and> (\<forall>t. calculatePurchaseReturn s r c d = Inr t \<longrightarrow>
            0 \<le> t
            \<and> (d \<noteq> 0 \<longrightarrow>
                 (\<exists>result precision.
                    power_fn (d + r) r c MAX_CRR = Inr (result, precision)
                    \<and> result \<ge> 2 ^ precision
                    \<and> (s * result) div 2 ^ precision \<ge> s
                    \<and> t = (s * result) div 2 ^ precision - s)))
      \<and> (\<forall>v. calculateSaleReturn s r c a = Inr v \<longrightarrow>
            0 \<le> v
            \<and> (a \<noteq> 0 \<and> a \<noteq> s \<longrightarrow>
                 (\<exists>result precision.
                    power_fn s (s - a) MAX_CRR c = Inr (result, precision)
                    \<and> result \<ge> 2 ^ precision \<and> result \<noteq> 0
                    \<and> r * result \<ge> r * 2 ^ precision
                    \<and> v = (r * result - r * 2 ^ precision) div result)))
      \<and> calculatePurchaseReturn s r c d \<noteq> Inl ZeroDivisionError
      \<and> calculateSaleReturn s r c a \<noteq> Inl ZeroDivisionError)"
proof -
  have A: "fixedExp x p \<ge> x + 2 ^ p" if "0 \<le> x"
    using that by (rule fixedExp_ge)
  have B: "result \<ge> 2 ^ precision \<and> (s * result) div 2 ^ precision - s \<ge> 0"
    if v: "s > 0" "r > 0" "0 < c" "c < 1000000"
      and pw: "power_fn (d + r) r c MAX_CRR = Inr (result, precision)"
    for result precision
  proof -
    from power_fn_result(3)[OF pw] v have ge: "2 ^ precision \<le> result"
      by (simp add: MAX_CRR_def)
    with le_shift_of_scaled[of s precision result] v show ?thesis by simp
  qed
  have C: "result \<ge> 2 ^ precision \<and> r * result - r * 2 ^ precision \<ge> 0 \<and> result \<noteq> 0"
    if v: "s > 0" "r > 0" "0 < c" "c < 1000000"
      and pw: "power_fn s (s - a) MAX_CRR c = Inr (result, precision)"
    for result precision
  proof -
    from power_fn_result(3)[OF pw] v have ge: "2 ^ precision \<le> result"
      by (simp add: MAX_CRR_def)
    then have "r * 2 ^ precision \<le> r * result"
      using v by (intro mult_left_mono) simp_all
    moreover have "(0::int) < 2 ^ precision" by simp
    ultimately show ?thesis using ge by linarith
  qed
  have P: "0 \<le> t
        \<and> (d \<noteq> 0 \<longrightarrow>
             (\<exists>result precision.
                power_fn (d + r) r c MAX_CRR = Inr (result, precision)
                \<and> result \<ge> 2 ^ precision
                \<and> (s * result) div 2 ^ precision \<ge> s
                \<and> t = (s * result) div 2 ^ precision - s))"
    if v: "s > 0" "r > 0" "0 < c" "c < 1000000"
      and buy: "calculatePurchaseReturn s r c d = Inr t"
    for t
  proof (cases "d = 0")
    case True
    with buy v show ?thesis by (simp add: calculatePurchaseReturn_def MAX_CRR_def)
  next
    case False
    from v have "c \<noteq> 1000000" by simp
    from purchase_general_cases[OF buy this False] obtain R q
      where pw: "power_fn (d + r) r c MAX_CRR = Inr (R, q)"
        and t: "t = (s * R) div 2 ^ q - s"
      by blast
    from B[OF v pw] have "R \<ge> 2 ^ q" "(s * R) div 2 ^ q \<ge> s" by simp_all
    with pw t show ?thesis by auto
  qed
  have S: "0 \<le> w
        \<and> (a \<noteq> 0 \<and> a \<noteq> s \<longrightarrow>
             (\<exists>result precision.
                power_fn s (s - a) MAX_CRR c = Inr (result, precision)
                \<and> result \<ge> 2 ^ precision \<and> result \<noteq> 0
                \<and> r * result \<ge> r * 2 ^ precision
                \<and> w = (r * result - r * 2 ^ precision) div result))"
    if v: "s > 0" "r > 0" "0 < c" "c < 1000000"
      and sale: "calculateSaleReturn s r c a = Inr w"
    for w
  proof (cases "a = 0 \<or> a = s")
    case True
    with sale v show ?thesis by (auto simp: calculateSaleReturn_def MAX_CRR_def)
  next
    case False
    from v have "c \<noteq> 1000000" by simp
    from sale_general_cases[OF sale this] False obtain R q
      where pw: "power_fn s (s - a) MAX_CRR c = Inr (R, q)"
        and w: "w = (r * R - r * 2 ^ q) div R"
      by blast
    from C[OF v pw] have R: "R \<ge> 2 ^ q" "r * R \<ge> r * 2 ^ q" "R \<noteq> 0" by simp_all
    have "(0::int) < 2 ^ q" by simp
    with R have "0 < R" by linarith
    with R have "0 \<le> w" unfolding w by (simp add: pos_imp_zdiv_nonneg_iff)
    with pw w R False show ?thesis by auto
  qed
  have D: "calculatePurchaseReturn s r c d \<noteq> Inl ZeroDivisionError"
    if v: "s > 0" "r > 0" "0 < c" "c < 1000000"
  proof -
    have "power_fn (d + r) r c MAX_CRR \<noteq> Inl ZeroDivisionError"
      using v by (intro power_fn_no_zero_division) (simp_all add: MAX_CRR_def)
    then show ?thesis
      using v
      by (auto simp: calculatePurchaseReturn_def safeAdd_def safeMul_def MAX_CRR_def
          split: sum.splits prod.splits)
  qed
  have E: "calculateSaleReturn s r c a \<noteq> Inl ZeroDivisionError"
    if v: "s > 0" "r > 0" "0 < c" "c < 1000000"
  proof (cases "a < s")
    case True
    have "power_fn s (s - a) MAX_CRR c \<noteq> Inl ZeroDivisionError"
      using v True by (intro power_fn_no_zero_division) simp_all
    moreover have "result \<noteq> 0"
      if "power_fn s (s - a) MAX_CRR c = Inr (result, precision)" for result precision
      using C[OF v that] by simp
    ultimately show ?thesis
      using v True
      by (auto simp: calculateSaleReturn_def safeMul_def Let_def
          split: sum.splits prod.splits)
  next
    case False
    then show ?thesis
      by (auto simp: calculateSaleReturn_def)
  qed
  show ?thesis
    using A B C D E P S by blast
qed

lemma power_fn_purchase_example:
  "power_fn (1000 + 1000) 1000 500000 MAX_CRR
     = Inr (240615969168004511545033772477625056910, 127)"
  by code_simp

lemma power_fn_sale_example:
  "power_fn 1000 (1000 - 414) MAX_CRR 500000
     = Inr (247733205192356975229308587921647464862, 126)"
  by code_simp

lemma purchase_example: "calculatePurchaseReturn 1000 1000 500000 1000 = Inr 414"
  by code_simp

lemma sale_example: "calculateSaleReturn 1000 1000 500000 414 = Inr 656"
  by code_simp

theorem unchecked_operations_safe_witness:
  "(0::int) \<le> 5 \<and> (32::nat) \<le> 32 \<and> (32::nat) \<le> 127 \<and> fixedExp 5 32 \<ge> 5 + 2 ^ 32
   \<and> (1000::int) > 0 \<and> (0::int) < 500000 \<and> (500000::int) < 1000000 \<and> (414::int) < 1000
   \<and> power_fn (1000 + 1000) 1000 500000 MAX_CRR
         = Inr (240615969168004511545033772477625056910, 127)
   \<and> (240615969168004511545033772477625056910::int) \<ge> 2 ^ 127
   \<and> (1000 * 240615969168004511545033772477625056910) div 2 ^ 127 \<ge> (1000::int)
   \<and> calculatePurchaseReturn 1000 1000 500000 1000 = Inr 414
   \<and> (414::int) = (1000 * 240615969168004511545033772477625056910) div 2 ^ 127 - 1000
   \<and> (0::int) \<le> 414
   \<and> power_fn 1000 (1000 - 414) MAX_CRR 500000
         = Inr (247733205192356975229308587921647464862, 126)
   \<and> (247733205192356975229308587921647464862::int) \<ge> 2 ^ 126
   \<and> 1000 * 247733205192356975229308587921647464862 \<ge> 1000 * (2::int) ^ 126
   \<and> calculateSaleReturn 1000 1000 500000 414 = Inr 656
   \<and> (656::int) = (1000 * 247733205192356975229308587921647464862 - 1000 * 2 ^ 126)
                      div 247733205192356975229308587921647464862
   \<and> (0::int) \<le> 656
   \<and> calculatePurchaseReturn 1000 1000 500000 1000 \<noteq> Inl ZeroDivisionError
   \<and> calculateSaleReturn 1000 1000 500000 414 \<noteq> Inl ZeroDivisionError"
  using unchecked_operations_safe[of 5 32 1000 1000 500000 1000 414]
    power_fn_purchase_example power_fn_sale_example purchase_example sale_example
  by simp

section \<open>floorLog2 is exact below \<open>2^256\<close>\<close>

lemma div_pow2_bounds:
  fixes n :: int
  assumes "2 ^ k \<le> n" "n < 2 ^ k * c"
  shows "1 \<le> n div 2 ^ k" "n div 2 ^ k < c"
proof -
  define q where "q = n div 2 ^ k"
  define B :: int where "B = 2 ^ k"
  have B: "0 < B" by (simp add: B_def)
  have dec: "n = q * B + n mod B"
    unfolding q_def B_def using div_mult_mod_eq[of n "2 ^ k"] by simp
  have md: "0 \<le> n mod B" "n mod B < B" using B by simp_all
  have "(2::int) ^ k div 2 ^ k \<le> n div 2 ^ k"
    using assms(1) by (intro zdiv_mono1) simp_all
  then show "1 \<le> n div 2 ^ k" by simp
  have "q < c"
  proof (rule ccontr)
    assume "\<not> q < c"
    then have "c * B \<le> q * B"
      using B by (intro mult_right_mono) simp_all
    moreover have "n < c * B" using assms(2) by (simp add: B_def mult.commute)
    ultimately show False using dec md by linarith
  qed
  then show "n div 2 ^ k < c" by (simp add: q_def)
qed

lemma div_pow2_sandwich:
  fixes n :: int
  assumes "2 ^ m \<le> n div 2 ^ k" "n div 2 ^ k < 2 ^ Suc m"
  shows "2 ^ (k + m) \<le> n" "n < 2 ^ Suc (k + m)"
proof -
  define q where "q = n div 2 ^ k"
  define B :: int where "B = 2 ^ k"
  define M :: int where "M = 2 ^ m"
  have B: "0 < B" by (simp add: B_def)
  have dec: "n = q * B + n mod B"
    unfolding q_def B_def using div_mult_mod_eq[of n "2 ^ k"] by simp
  have md: "0 \<le> n mod B" "n mod B < B" using B by simp_all
  have q: "M \<le> q" "q + 1 \<le> 2 * M"
    using assms by (simp_all add: q_def M_def)
  have "M * B \<le> q * B"
    using q(1) B by (intro mult_right_mono) simp_all
  then have lo: "M * B \<le> n" using dec md by linarith
  have "(q + 1) * B \<le> (2 * M) * B"
    using q(2) B by (intro mult_right_mono) simp_all
  moreover have "n < (q + 1) * B"
    using dec md by (simp add: algebra_simps)
  ultimately have hi: "n < (2 * M) * B" by linarith
  show "2 ^ (k + m) \<le> n"
    using lo by (simp add: power_add M_def B_def mult.commute)
  show "n < 2 ^ Suc (k + m)"
    using hi by (simp add: power_add M_def B_def mult_ac)
qed

lemma floorLog2_while_exact:
  assumes "1 \<le> n"
  shows "\<exists>m. floorLog2_while n res = res + m \<and> 2 ^ m \<le> n \<and> n < 2 ^ Suc m"
  using assms
proof (induction n res rule: floorLog2_while.induct)
  case (1 n res)
  show ?case
  proof (cases "n > 1")
    case True
    then have "1 \<le> n div 2" by simp
    from "1.IH"[OF True this] obtain m
      where m: "floorLog2_while (n div 2) (res + 1) = res + 1 + m"
        "2 ^ m \<le> n div 2" "n div 2 < 2 ^ Suc m"
      by blast
    have "floorLog2_while n res = res + Suc m"
      using True m by (subst floorLog2_while.simps) simp
    moreover have "2 ^ Suc m \<le> n" using m(2) by simp
    moreover have "n < 2 ^ Suc (Suc m)" using m(3) by simp
    ultimately show ?thesis by blast
  next
    case False
    then have "floorLog2_while n res = res + 0"
      by (subst floorLog2_while.simps) simp
    moreover have "2 ^ 0 \<le> n" "n < 2 ^ Suc 0" using "1.prems" False by simp_all
    ultimately show ?thesis by blast
  qed
qed

lemma or_pow2_eq_add:
  fixes res :: nat
  assumes "2 ^ Suc j dvd res"
  shows "res OR 2 ^ j = res + 2 ^ j"
proof -
  from assms obtain q where q: "res = 2 ^ Suc j * q" by (elim dvdE)
  have "res div 2 ^ j = 2 * q" by (simp add: q)
  then have "\<not> bit res j" by (simp add: bit_iff_odd)
  then have "res AND 2 ^ j = 0" by (simp add: and_exp_eq_0_iff_not_bit)
  then show ?thesis by (simp add: disjunctive_add_eq_or)
qed

lemma floorLog2_for_exact:
  assumes "1 \<le> n" "n < 2 ^ (2 ^ j)" "2 ^ j dvd res"
  shows "\<exists>m. floorLog2_for (map (\<lambda>i. 2 ^ i) (rev [0..<j])) n res = res + m
             \<and> 2 ^ m \<le> n \<and> n < 2 ^ Suc m \<and> m < 2 ^ j"
  using assms
proof (induction j arbitrary: n res)
  case 0
  then have "n = 1" by simp
  then have "floorLog2_for (map (\<lambda>i. 2 ^ i) (rev [0..<0])) n res = res + 0
             \<and> 2 ^ 0 \<le> n \<and> n < 2 ^ Suc 0 \<and> (0::nat) < 2 ^ 0"
    by simp
  then show ?case by blast
next
  case (Suc j)
  let ?ss = "map (\<lambda>i. 2 ^ i) (rev [0..<j])"
  have list: "map (\<lambda>i. 2 ^ i) (rev [0..<Suc j]) = 2 ^ j # ?ss" by simp
  have dvd: "2 ^ j dvd res"
    using Suc.prems(3) by (metis dvd_trans dvd_triv_right power_Suc2  dvd_mult_right power_Suc)
  show ?case
  proof (cases "n \<ge> ONE * 2 ^ (2 ^ j)")
    case True
    define n' where "n' = n div 2 ^ (2 ^ j)"
    have ge: "2 ^ (2 ^ j) \<le> n" using True by (simp add: ONE_def)
    have "n < 2 ^ (2 ^ j) * (2 ^ (2 ^ j) :: int)"
      using Suc.prems(2) by (simp add: power_add [symmetric] mult_2)
    from div_pow2_bounds[OF ge this] have n': "1 \<le> n'" "n' < 2 ^ (2 ^ j)"
      by (simp_all add: n'_def)
    have "(2::nat) ^ j dvd res + 2 ^ j" using dvd by simp
    from Suc.IH[OF n' this] obtain m'
      where m': "floorLog2_for ?ss n' (res + 2 ^ j) = res + 2 ^ j + m'"
        "2 ^ m' \<le> n'" "n' < 2 ^ Suc m'" "m' < 2 ^ j"
      by blast
    have "floorLog2_for (2 ^ j # ?ss) n res = res + (2 ^ j + m')"
      using True m'(1) or_pow2_eq_add[OF Suc.prems(3)] by (simp add: n'_def)
    moreover have "2 ^ (2 ^ j + m') \<le> n" "n < 2 ^ Suc (2 ^ j + m')"
      using div_pow2_sandwich[of m' n "2 ^ j"] m'(2,3) by (simp_all add: n'_def)
    moreover have "2 ^ j + m' < 2 ^ Suc j" using m'(4) by simp
    ultimately show ?thesis unfolding list by blast
  next
    case False
    then have lt: "n < 2 ^ (2 ^ j)" by (simp add: ONE_def)
    from Suc.IH[OF Suc.prems(1) lt dvd] obtain m
      where m: "floorLog2_for ?ss n res = res + m" "2 ^ m \<le> n" "n < 2 ^ Suc m" "m < 2 ^ j"
      by blast
    have "floorLog2_for (2 ^ j # ?ss) n res = res + m"
      using False m(1) by simp
    moreover have "m < 2 ^ Suc j" using m(4) by simp
    ultimately show ?thesis unfolding list using m(2,3) by blast
  qed
qed

lemma floorLog2_widths:
  "map (\<lambda>k. 2 ^ (8 - 1 - k)) [0..<8] = map (\<lambda>i. (2::nat) ^ i) (rev [0..<8])"
  by code_simp

lemma floorLog2_exact:
  assumes "1 \<le> n" "n < 2 ^ 256"
  shows "2 ^ floorLog2 n \<le> n" "n < 2 ^ Suc (floorLog2 n)"
proof -
  have "\<exists>m. floorLog2 n = m \<and> 2 ^ m \<le> n \<and> n < 2 ^ Suc m"
  proof (cases "n < 256")
    case True
    from floorLog2_while_exact[OF assms(1), of 0] True show ?thesis
      by (simp add: floorLog2_def)
  next
    case False
    have "n < 2 ^ (2 ^ 8)" using assms(2) by simp
    from floorLog2_for_exact[OF assms(1) this, of 0] obtain m
      where m: "floorLog2_for (map (\<lambda>i. 2 ^ i) (rev [0..<8])) n 0 = 0 + m"
        "2 ^ m \<le> n" "n < 2 ^ Suc m"
      by auto
    have "floorLog2 n = floorLog2_for (map (\<lambda>i. 2 ^ i) (rev [0..<8])) n 0"
      unfolding floorLog2_def floorLog2_widths using False by (simp only: if_False)
    with m show ?thesis by simp
  qed
  then show "2 ^ floorLog2 n \<le> n" "n < 2 ^ Suc (floorLog2 n)" by auto
qed

section \<open>The natural logarithm\<close>

subsection \<open>Bounds of \<open>ln 2\<close> from its series\<close>

lemma ln2_series:
  shows "summable (\<lambda>k::nat. 1 / (real (k + 1) * 2 ^ (k + 1)))"
    and "ln 2 = (\<Sum>k::nat. 1 / (real (k + 1) * 2 ^ (k + 1)))"
proof -
  let ?g = "\<lambda>k::nat. 1 / (real (k + 1) * 2 ^ (k + 1))"
  let ?f = "\<lambda>n::nat. (-1) ^ n * (1 / real (n + 1)) * ((1/2::real) - 1) ^ Suc n"
  have f: "?f k = - ?g k" for k
  proof -
    have "((1/2::real) - 1) ^ Suc k = (-1) ^ Suc k * (1/2) ^ Suc k"
      by (simp add: power_minus [symmetric] del: power_Suc)
    then have "?f k = ((-1) ^ k * (-1) ^ Suc k) * (1 / real (k + 1)) * (1/2) ^ Suc k"
      by (simp only: mult_ac)
    also have "((-1::real) ^ k * (-1) ^ Suc k) = - 1"
      by (simp add: power_mult_distrib [symmetric])
    finally show ?thesis by (simp add: power_divide)
  qed
  show summ: "summable ?g"
  proof (rule summable_comparison_test')
    show "summable (\<lambda>k. (1/2::real) ^ k)" by (rule summable_geometric) simp
    show "norm (?g k) \<le> (1/2) ^ k" if "k \<ge> 0" for k
    proof -
      have "?g k \<le> 1 / (1 * 2 ^ k)"
        by (intro divide_left_mono mult_mono) simp_all
      then show ?thesis by (simp add: power_divide)
    qed
  qed
  have "ln (1/2::real) = suminf ?f"
    using ln_series[of "1/2"] by simp
  also have "\<dots> = (\<Sum>k. - ?g k)" by (simp only: f)
  also have "\<dots> = - suminf ?g" by (rule suminf_minus[OF summ])
  finally show "ln 2 = suminf ?g" by (simp add: ln_div)
qed

lemma ln2_partial_sum_le: "(\<Sum>k<n. 1 / (real (k + 1) * 2 ^ (k + 1))) \<le> ln 2"
  unfolding ln2_series(2) by (rule sum_le_suminf[OF ln2_series(1)]) simp_all

lemma ln2_int_sum_le:
  "real_of_int (\<Sum>k<n. 2 ^ B div (int (k + 1) * 2 ^ (k + 1))) / 2 ^ B \<le> ln 2"
proof -
  have "real_of_int (2 ^ B div (int (k + 1) * 2 ^ (k + 1))) / 2 ^ B
        \<le> 1 / (real (k + 1) * 2 ^ (k + 1))" for k
  proof -
    have "real_of_int (2 ^ B div (int (k + 1) * 2 ^ (k + 1)))
          \<le> real_of_int (2 ^ B) / real_of_int (int (k + 1) * 2 ^ (k + 1))"
      by (rule real_of_int_div4)
    then show ?thesis
      by (simp add: field_simps)
  qed
  then have "(\<Sum>k<n. real_of_int (2 ^ B div (int (k + 1) * 2 ^ (k + 1))) / 2 ^ B)
        \<le> (\<Sum>k<n. 1 / (real (k + 1) * 2 ^ (k + 1)))"
    by (intro sum_mono)
  also note ln2_partial_sum_le
  finally show ?thesis by (simp add: sum_divide_distrib)
qed

lemma ln2_sum_value:
  "(32 * LN2_MANTISSA + 23) * 2 ^ 13
     \<le> sum_list (map (\<lambda>k. 2 ^ 140 div (int (k + 1) * 2 ^ (k + 1))) [0..<130])"
  by code_simp

lemma ln2_lower: "real_of_int (32 * LN2_MANTISSA + 23) / 2 ^ 127 \<le> ln 2"
proof -
  have "(\<Sum>k<130. 2 ^ 140 div (int (k + 1) * 2 ^ (k + 1)))
        = sum_list (map (\<lambda>k. 2 ^ 140 div (int (k + 1) * 2 ^ (k + 1))) [0..<130])"
    by (simp only: interv_sum_list_conv_sum_set_nat atLeast_upt)
  with ln2_sum_value
  have "(32 * LN2_MANTISSA + 23) * 2 ^ 13 \<le> (\<Sum>k<130. 2 ^ 140 div (int (k + 1) * 2 ^ (k + 1)))"
    by simp
  then have "real_of_int ((32 * LN2_MANTISSA + 23) * 2 ^ 13)
        \<le> real_of_int (\<Sum>k<130. 2 ^ 140 div (int (k + 1) * 2 ^ (k + 1)))"
    by (simp only: of_int_le_iff)
  then have "real_of_int ((32 * LN2_MANTISSA + 23) * 2 ^ 13) / 2 ^ 140 \<le> ln 2"
    using ln2_int_sum_le[of 140 130] by (simp add: field_simps)
  moreover have "real_of_int ((32 * LN2_MANTISSA + 23) * 2 ^ 13) / 2 ^ 140
      = real_of_int (32 * LN2_MANTISSA + 23) / 2 ^ 127"
    by simp
  ultimately show ?thesis by simp
qed

lemma ln2_partial_sum_ge:
  "ln 2 \<le> (\<Sum>k<n. 1 / (real (k + 1) * 2 ^ (k + 1))) + 2 * (1/2) ^ n"
proof -
  define g where "g = (\<lambda>k::nat. 1 / (real (k + 1) * 2 ^ (k + 1)))"
  have summ: "summable g" and eq: "ln 2 = suminf g"
    unfolding g_def by (rule ln2_series)+
  have geo: "summable (\<lambda>k. (1/2::real) ^ n * (1/2) ^ k)"
    by (intro summable_mult summable_geometric) simp
  have "suminf g = (\<Sum>k. g (k + n)) + (\<Sum>k<n. g k)"
    by (rule suminf_split_initial_segment[OF summ])
  also have "(\<Sum>k. g (k + n)) \<le> (\<Sum>k. (1/2::real) ^ n * (1/2) ^ k)"
  proof (rule suminf_le[OF _ summable_ignore_initial_segment[OF summ] geo])
    fix k
    have "g (k + n) \<le> 1 / (1 * 2 ^ (k + n + 1))"
      unfolding g_def by (intro divide_left_mono mult_mono) simp_all
    also have "\<dots> \<le> 1 / (1 * 2 ^ (k + n))"
      by (intro divide_left_mono mult_mono power_increasing) simp_all
    also have "\<dots> = (1/2) ^ n * (1/2) ^ k"
      by (simp add: power_add power_divide)
    finally show "g (k + n) \<le> (1/2) ^ n * (1/2) ^ k" .
  qed
  also have "(\<Sum>k. (1/2::real) ^ n * (1/2) ^ k) = (1/2) ^ n * (\<Sum>k. (1/2) ^ k)"
    by (intro suminf_mult summable_geometric) simp
  also have "(\<Sum>k. (1/2::real) ^ k) = 2"
    using suminf_geometric[of "1/2::real"] by simp
  finally have "ln 2 \<le> (1/2) ^ n * 2 + (\<Sum>k<n. g k)" by (simp add: eq)
  then show ?thesis by (simp add: g_def add.commute mult.commute)
qed

lemma ln2_int_sum_ge:
  "ln 2 \<le> real_of_int ((\<Sum>k<n. 2 ^ B div (int (k + 1) * 2 ^ (k + 1))) + int n) / 2 ^ B
            + 2 * (1/2) ^ n"
proof -
  have "1 / (real (k + 1) * 2 ^ (k + 1))
        \<le> (real_of_int (2 ^ B div (int (k + 1) * 2 ^ (k + 1))) + 1) / 2 ^ B" for k
  proof -
    have "real_of_int (2 ^ B) / real_of_int (int (k + 1) * 2 ^ (k + 1))
          - real_of_int (2 ^ B div (int (k + 1) * 2 ^ (k + 1))) \<le> 1"
      by (rule real_of_int_div3)
    then have "2 ^ B / (real (k + 1) * 2 ^ (k + 1))
          \<le> real_of_int (2 ^ B div (int (k + 1) * 2 ^ (k + 1))) + 1"
      by simp
    then have "(2 ^ B / (real (k + 1) * 2 ^ (k + 1))) / 2 ^ B
          \<le> (real_of_int (2 ^ B div (int (k + 1) * 2 ^ (k + 1))) + 1) / 2 ^ B"
      by (intro divide_right_mono) simp_all
    then show ?thesis by simp
  qed
  then have "(\<Sum>k<n. 1 / (real (k + 1) * 2 ^ (k + 1)))
        \<le> (\<Sum>k<n. (real_of_int (2 ^ B div (int (k + 1) * 2 ^ (k + 1))) + 1) / 2 ^ B)"
    by (intro sum_mono)
  also have "\<dots> = real_of_int ((\<Sum>k<n. 2 ^ B div (int (k + 1) * 2 ^ (k + 1))) + int n) / 2 ^ B"
    by (simp add: sum_divide_distrib [symmetric] sum.distrib)
  finally show ?thesis
    using ln2_partial_sum_ge[of n] by linarith
qed

lemma ln2_sum_value_upper:
  "sum_list (map (\<lambda>k. 2 ^ 150 div (int (k + 1) * 2 ^ (k + 1))) [0..<140]) + 140 + 2 ^ 11
     < (32 * LN2_MANTISSA + 24) * 2 ^ 23"
  by code_simp

lemma ln2_upper: "ln 2 < real_of_int (32 * LN2_MANTISSA + 24) / 2 ^ 127"
proof -
  define K :: int where "K = (\<Sum>k<140. 2 ^ 150 div (int (k + 1) * 2 ^ (k + 1)))"
  have "K = sum_list (map (\<lambda>k. 2 ^ 150 div (int (k + 1) * 2 ^ (k + 1))) [0..<140])"
    unfolding K_def by (simp only: interv_sum_list_conv_sum_set_nat atLeast_upt)
  with ln2_sum_value_upper have "K + 140 + 2 ^ 11 < (32 * LN2_MANTISSA + 24) * 2 ^ 23"
    by simp
  then have "real_of_int (K + 140 + 2 ^ 11) < real_of_int ((32 * LN2_MANTISSA + 24) * 2 ^ 23)"
    by (simp only: of_int_less_iff)
  then have lt: "real_of_int (K + 140 + 2 ^ 11) / 2 ^ 150
        < real_of_int ((32 * LN2_MANTISSA + 24) * 2 ^ 23) / 2 ^ 150"
    by (intro divide_strict_right_mono) simp_all
  have "ln 2 \<le> real_of_int (K + int 140) / 2 ^ 150 + 2 * (1/2) ^ 140"
    unfolding K_def by (rule ln2_int_sum_ge)
  also have "2 * (1/2::real) ^ 140 = 2 ^ 11 / 2 ^ 150"
    by (simp add: power_divide)
  also have "real_of_int (K + int 140) / 2 ^ 150 + 2 ^ 11 / 2 ^ 150
      = real_of_int (K + 140 + 2 ^ 11) / 2 ^ 150"
    by (simp add: add_divide_distrib)
  also note lt
  also have "real_of_int ((32 * LN2_MANTISSA + 24) * 2 ^ 23) / 2 ^ 150
      = real_of_int (32 * LN2_MANTISSA + 24) / 2 ^ 127"
    by simp
  finally show ?thesis .
qed

lemma floor_ln2: "\<lfloor>ln (2::real) * 2 ^ 127\<rfloor> = 32 * LN2_MANTISSA + 23"
proof (rule floor_unique)
  show "real_of_int (32 * LN2_MANTISSA + 23) \<le> ln 2 * 2 ^ 127"
    using ln2_lower by (simp add: field_simps)
  have "ln 2 * 2 ^ 127 < real_of_int (32 * LN2_MANTISSA + 24)"
    using ln2_upper by (simp add: field_simps)
  then show "ln 2 * 2 ^ 127 < real_of_int (32 * LN2_MANTISSA + 23) + 1"
    by simp
qed

lemma FIXED_1_eq: "FIXED_1 = 2 ^ 127"
  by (simp add: FIXED_1_def)

lemma FIXED_2_eq: "FIXED_2 = 2 ^ 128"
  by (simp add: FIXED_2_def)

subsection \<open>floorLog2 never overshoots\<close>

lemma floorLog2_while_le:
  assumes "1 \<le> n"
  shows "\<exists>m. floorLog2_while n res = res + m \<and> 2 ^ m \<le> n"
  using assms
proof (induction n res rule: floorLog2_while.induct)
  case (1 n res)
  show ?case
  proof (cases "n > 1")
    case True
    then have "1 \<le> n div 2" by simp
    from "1.IH"[OF True this] obtain m
      where m: "floorLog2_while (n div 2) (res + 1) = res + 1 + m" "2 ^ m \<le> n div 2"
      by blast
    have "floorLog2_while n res = res + Suc m"
      using True m by (subst floorLog2_while.simps) simp
    moreover have "2 ^ Suc m \<le> n" using m(2) by simp
    ultimately show ?thesis by blast
  next
    case False
    then have "floorLog2_while n res = res + 0"
      by (subst floorLog2_while.simps) simp
    moreover have "2 ^ 0 \<le> n" using "1.prems" by simp
    ultimately show ?thesis by blast
  qed
qed

lemma or_nat_le_add: "(a::nat) OR b \<le> a + b"
proof -
  have "int (a OR b) = int a OR int b" by (simp add: of_nat_or_eq)
  moreover have "0 \<le> (int a AND int b)" by simp
  ultimately have "int (a OR b) \<le> int a + int b"
    using plus_and_or[of "int a" "int b"] by linarith
  then show ?thesis by linarith
qed

lemma floorLog2_for_le:
  assumes "1 \<le> n"
  shows "\<exists>m. floorLog2_for ss n res \<le> res + m \<and> 2 ^ m \<le> n"
  using assms
proof (induction ss arbitrary: n res)
  case Nil
  have "floorLog2_for [] n res \<le> res + 0 \<and> 2 ^ 0 \<le> n" using Nil by simp
  then show ?case by blast
next
  case (Cons s ss)
  show ?case
  proof (cases "n \<ge> ONE * 2 ^ s")
    case True
    then have ge: "2 ^ s \<le> n" by (simp add: ONE_def)
    then have "(2::int) ^ s div 2 ^ s \<le> n div 2 ^ s"
      by (intro zdiv_mono1) simp_all
    then have "1 \<le> n div 2 ^ s" by simp
    from Cons.IH[OF this, of "res OR s"] obtain m
      where m: "floorLog2_for ss (n div 2 ^ s) (res OR s) \<le> (res OR s) + m"
        "2 ^ m \<le> n div 2 ^ s"
      by blast
    have "floorLog2_for (s # ss) n res \<le> res + (s + m)"
      using True m(1) or_nat_le_add[of res s] by simp
    moreover have "2 ^ (s + m) \<le> n"
    proof -
      have "(2::int) ^ (s + m) = 2 ^ s * 2 ^ m" by (simp add: power_add)
      also have "\<dots> \<le> 2 ^ s * (n div 2 ^ s)"
        using m(2) by (intro mult_left_mono) simp_all
      also have "\<dots> \<le> n"
      proof -
        have "n = 2 ^ s * (n div 2 ^ s) + n mod 2 ^ s" by simp
        moreover have "0 \<le> n mod 2 ^ s" by simp
        ultimately show ?thesis by linarith
      qed
      finally show ?thesis .
    qed
    ultimately show ?thesis by blast
  next
    case False
    with Cons.IH[OF Cons.prems, of res] show ?thesis by simp
  qed
qed

lemma floorLog2_le:
  assumes "1 \<le> n"
  shows "2 ^ floorLog2 n \<le> n"
proof -
  have "\<exists>m. floorLog2 n \<le> m \<and> 2 ^ m \<le> n"
  proof (cases "n < 256")
    case True
    from floorLog2_while_le[OF assms, of 0] obtain m
      where "floorLog2_while n 0 = 0 + m" "2 ^ m \<le> n" by blast
    with True have "floorLog2 n \<le> m \<and> 2 ^ m \<le> n" by (simp add: floorLog2_def)
    then show ?thesis by blast
  next
    case False
    from floorLog2_for_le[OF assms, of "map (\<lambda>k. 2 ^ (8 - 1 - k)) [0..<8]" 0] obtain m
      where "floorLog2_for (map (\<lambda>k. 2 ^ (8 - 1 - k)) [0..<8]) n 0 \<le> 0 + m" "2 ^ m \<le> n"
      by blast
    with False have "floorLog2 n \<le> m \<and> 2 ^ m \<le> n" by (simp add: floorLog2_def)
    then show ?thesis by blast
  qed
  then obtain m where m: "floorLog2 n \<le> m" "2 ^ m \<le> n" by blast
  have "(2::int) ^ floorLog2 n \<le> 2 ^ m"
    using m(1) by (intro power_increasing) simp_all
  from this m(2) show ?thesis by (rule order_trans)
qed

subsection \<open>The logarithm is approximated from below\<close>

lemma ln_for_upper:
  assumes "FIXED_1 \<le> x"
  shows "real_of_int (ln_for k x res)
           \<le> real_of_int res + 2 ^ k * log 2 (real_of_int x / 2 ^ 127)"
  using assms
proof (induction k arbitrary: x res)
  case 0
  have "1 \<le> real_of_int x / 2 ^ 127"
    using "0.prems" by (simp add: FIXED_1_eq)
  then have "0 \<le> log 2 (real_of_int x / 2 ^ 127)" by simp
  then show ?case by simp
next
  case (Suc k)
  define x' where "x' = (x * x) div FIXED_1"
  have x: "2 ^ 127 \<le> x" using Suc.prems by (simp add: FIXED_1_eq)
  have "(2::int) ^ 127 * 2 ^ 127 \<le> x * x"
    using x by (intro mult_mono) simp_all
  then have "((2::int) ^ 127 * 2 ^ 127) div 2 ^ 127 \<le> (x * x) div 2 ^ 127"
    by (intro zdiv_mono1) simp_all
  then have x'_ge: "FIXED_1 \<le> x'"
    by (simp add: x'_def FIXED_1_eq)
  have "real_of_int x' \<le> real_of_int (x * x) / real_of_int (2 ^ 127)"
    unfolding x'_def FIXED_1_eq by (rule real_of_int_div4)
  then have "real_of_int x' / 2 ^ 127 \<le> (real_of_int x / 2 ^ 127) ^ 2"
    by (simp add: power2_eq_square field_simps)
  moreover have x'_pos: "0 < real_of_int x' / 2 ^ 127"
    using x'_ge by (simp add: FIXED_1_eq)
  ultimately have "log 2 (real_of_int x' / 2 ^ 127) \<le> log 2 ((real_of_int x / 2 ^ 127) ^ 2)"
    by (intro log_mono) simp_all
  also have "\<dots> = 2 * log 2 (real_of_int x / 2 ^ 127)"
    using x by (subst log_nat_power) simp_all
  finally have sq: "log 2 (real_of_int x' / 2 ^ 127) \<le> 2 * log 2 (real_of_int x / 2 ^ 127)" .
  show ?case
  proof (cases "x' \<ge> FIXED_2")
    case True
    define x'' where "x'' = x' div 2"
    have x''_ge: "FIXED_1 \<le> x''"
      using True by (simp add: x''_def FIXED_1_eq FIXED_2_eq)
    have "real_of_int x'' \<le> real_of_int x' / real_of_int 2"
      unfolding x''_def by (rule real_of_int_div4)
    then have "real_of_int x'' / 2 ^ 127 \<le> (real_of_int x' / 2 ^ 127) / 2"
      by (simp add: field_simps)
    moreover have "0 < real_of_int x'' / 2 ^ 127"
      using x''_ge by (simp add: FIXED_1_eq)
    ultimately have "log 2 (real_of_int x'' / 2 ^ 127) \<le> log 2 ((real_of_int x' / 2 ^ 127) / 2)"
      by (intro log_mono) simp_all
    also have "\<dots> = log 2 (real_of_int x' / 2 ^ 127) - 1"
      using x'_pos by (subst log_divide) simp_all
    finally have half: "log 2 (real_of_int x'' / 2 ^ 127) \<le> log 2 (real_of_int x' / 2 ^ 127) - 1" .
    have "real_of_int (ln_for (Suc k) x res) = real_of_int (ln_for k x'' (res + ONE * 2 ^ k))"
      using True by (simp add: Let_def x'_def x''_def)
    also have "\<dots> \<le> real_of_int (res + ONE * 2 ^ k) + 2 ^ k * log 2 (real_of_int x'' / 2 ^ 127)"
      by (rule Suc.IH[OF x''_ge])
    also have "\<dots> \<le> real_of_int res + 2 ^ k + 2 ^ k * (log 2 (real_of_int x' / 2 ^ 127) - 1)"
      using half by (simp add: ONE_def)
    also have "\<dots> = real_of_int res + 2 ^ k * log 2 (real_of_int x' / 2 ^ 127)"
      by (simp add: algebra_simps)
    also have "\<dots> \<le> real_of_int res + 2 ^ k * (2 * log 2 (real_of_int x / 2 ^ 127))"
      using sq by simp
    finally show ?thesis by simp
  next
    case False
    have "real_of_int (ln_for (Suc k) x res) = real_of_int (ln_for k x' res)"
      using False by (simp add: Let_def x'_def)
    also have "\<dots> \<le> real_of_int res + 2 ^ k * log 2 (real_of_int x' / 2 ^ 127)"
      by (rule Suc.IH[OF x'_ge])
    also have "\<dots> \<le> real_of_int res + 2 ^ k * (2 * log 2 (real_of_int x / 2 ^ 127))"
      using sq by simp
    finally show ?thesis by simp
  qed
qed

lemma LN2_MANTISSA_le_ln2: "real_of_int LN2_MANTISSA / 2 ^ 122 \<le> ln 2"
proof -
  have "real_of_int LN2_MANTISSA / 2 ^ 122 = real_of_int (32 * LN2_MANTISSA) / 2 ^ 127"
    by simp
  also have "\<dots> \<le> real_of_int (32 * LN2_MANTISSA + 23) / 2 ^ 127"
    by (intro divide_right_mono) simp_all
  also note ln2_lower
  finally show ?thesis .
qed

lemma LN2_MANTISSA_ge_ln2: "ln 2 \<le> real_of_int (LN2_MANTISSA + 1) / 2 ^ 122"
proof -
  have "ln 2 < real_of_int (32 * LN2_MANTISSA + 24) / 2 ^ 127" by (rule ln2_upper)
  also have "\<dots> \<le> real_of_int (32 * LN2_MANTISSA + 32) / 2 ^ 127"
    by (intro divide_right_mono) simp_all
  also have "\<dots> = real_of_int (LN2_MANTISSA + 1) / 2 ^ 122" by simp
  finally show ?thesis by simp
qed

text \<open>The state before the rescaling by \<open>LN2_MANTISSA\<close>: a lower bound of \<open>log2\<close>.\<close>

lemma ln_fn_upper:
  assumes "ln_fn n d = Inr l" "0 < d" "d \<le> n"
  shows "real_of_int l \<le> ln (real_of_int n / real_of_int d) * 2 ^ 127"
proof -
  define x0 where "x0 = n * FIXED_1 div d"
  define count where "count = floorLog2 (x0 div FIXED_1)"
  define x where "x = (if x0 \<ge> FIXED_2 then x0 div 2 ^ count else x0)"
  define res where "res = (if x0 \<ge> FIXED_2 then int count * FIXED_1 else 0)"
  define res' where "res' = (if x > FIXED_1 then ln_for MAX_PRECISION x res else res)"
  have l: "l = (res' * LN2_MANTISSA) div 2 ^ LN2_EXPONENT"
    using assms(1)
    by (auto simp: ln_fn_def Let_def x0_def x_def res_def res'_def count_def split: if_splits)
  let ?q = "real_of_int n / real_of_int d"
  have q: "1 \<le> ?q" using assms by simp
  \<comment> \<open>the ratio in fixed point\<close>
  have "d * 2 ^ 127 div d \<le> n * 2 ^ 127 div d"
    using assms by (intro zdiv_mono1 mult_right_mono) simp_all
  then have x0_ge: "2 ^ 127 \<le> x0"
    using assms by (simp add: x0_def FIXED_1_eq)
  have "real_of_int x0 \<le> real_of_int (n * 2 ^ 127) / real_of_int d"
    unfolding x0_def FIXED_1_eq by (rule real_of_int_div4)
  then have x0_le: "real_of_int x0 / 2 ^ 127 \<le> ?q"
    by (simp add: field_simps)
  have x0_pos: "0 < real_of_int x0 / 2 ^ 127" using x0_ge by simp
  have log_x0: "log 2 (real_of_int x0 / 2 ^ 127) \<le> log 2 ?q"
    using x0_le x0_pos by (intro log_mono) simp_all
  \<comment> \<open>the integer part\<close>
  have st: "FIXED_1 \<le> x \<and> 0 \<le> res
      \<and> real_of_int res + 2 ^ 127 * log 2 (real_of_int x / 2 ^ 127)
          \<le> 2 ^ 127 * log 2 (real_of_int x0 / 2 ^ 127)"
  proof (cases "x0 \<ge> FIXED_2")
    case False
    then show ?thesis using x0_ge by (simp add: x_def res_def FIXED_1_eq)
  next
    case True
    define m where "m = x0 div FIXED_1"
    have "2 ^ 128 div 2 ^ 127 \<le> x0 div (2 ^ 127 :: int)"
      using True unfolding FIXED_2_eq by (intro zdiv_mono1) simp_all
    then have m1: "1 \<le> m" by (simp add: m_def FIXED_1_eq)
    have cm: "2 ^ count \<le> m"
      unfolding count_def m_def[symmetric] using m1 by (rule floorLog2_le)
    have "m * 2 ^ 127 \<le> x0"
    proof -
      have "x0 = (x0 div 2 ^ 127) * 2 ^ 127 + x0 mod 2 ^ 127" by simp
      moreover have "0 \<le> x0 mod 2 ^ 127" by simp
      ultimately show ?thesis unfolding m_def FIXED_1_eq by linarith
    qed
    moreover have "2 ^ count * 2 ^ 127 \<le> m * (2 ^ 127 :: int)"
      using cm by (intro mult_right_mono) simp_all
    ultimately have "2 ^ 127 * 2 ^ count \<le> x0" by (simp add: mult.commute)
    then have "(2 ^ 127 * 2 ^ count) div 2 ^ count \<le> x0 div (2 ^ count :: int)"
      by (intro zdiv_mono1) simp_all
    then have x_ge: "2 ^ 127 \<le> x" using True by (simp add: x_def)
    have "real_of_int (x0 div 2 ^ count) \<le> real_of_int x0 / real_of_int (2 ^ count)"
      by (rule real_of_int_div4)
    then have "real_of_int x \<le> real_of_int x0 / real_of_int (2 ^ count)"
      using True unfolding x_def by (simp only: if_True)
    then have "real_of_int x / 2 ^ 127 \<le> (real_of_int x0 / 2 ^ 127) / 2 ^ count"
      by (simp add: field_simps)
    moreover have "0 < real_of_int x / 2 ^ 127" using x_ge by simp
    ultimately have "log 2 (real_of_int x / 2 ^ 127)
        \<le> log 2 ((real_of_int x0 / 2 ^ 127) / 2 ^ count)"
      by (intro log_mono) simp_all
    also have "\<dots> = log 2 (real_of_int x0 / 2 ^ 127) - real count"
      using x0_pos by (subst log_divide) (simp_all add: log_nat_power)
    finally have "2 ^ 127 * log 2 (real_of_int x / 2 ^ 127)
        \<le> 2 ^ 127 * (log 2 (real_of_int x0 / 2 ^ 127) - real count)"
      by simp
    moreover have "real_of_int res = real count * 2 ^ 127"
      using True by (simp add: res_def FIXED_1_eq)
    ultimately show ?thesis
      using x_ge by (simp add: FIXED_1_eq res_def algebra_simps)
  qed
  \<comment> \<open>the fraction\<close>
  have res'_le: "real_of_int res' \<le> real_of_int res + 2 ^ 127 * log 2 (real_of_int x / 2 ^ 127)"
  proof (cases "x > FIXED_1")
    case True
    then show ?thesis
      using ln_for_upper[of x 127 res] st by (simp add: res'_def MAX_PRECISION_def)
  next
    case False
    with st have "x = 2 ^ 127" by (simp add: FIXED_1_eq)
    then show ?thesis using False by (simp add: res'_def)
  qed
  have res'_ge: "0 \<le> res'"
    using st ln_for_ge[of res MAX_PRECISION x] by (simp add: res'_def)
  have "real_of_int res' \<le> 2 ^ 127 * log 2 ?q"
    using res'_le st log_x0 by simp
  \<comment> \<open>the rescaling\<close>
  have "real_of_int l \<le> real_of_int (res' * LN2_MANTISSA) / real_of_int (2 ^ 122)"
    unfolding l LN2_EXPONENT_def by (rule real_of_int_div4)
  also have "\<dots> = real_of_int res' * (real_of_int LN2_MANTISSA / 2 ^ 122)"
    by simp
  also have "\<dots> \<le> real_of_int res' * ln 2"
    using res'_ge LN2_MANTISSA_le_ln2 by (intro mult_left_mono) simp_all
  also have "\<dots> \<le> (2 ^ 127 * log 2 ?q) * ln 2"
    using \<open>real_of_int res' \<le> 2 ^ 127 * log 2 ?q\<close> by (intro mult_right_mono) simp_all
  also have "\<dots> = ln ?q * 2 ^ 127"
    by (simp add: log_def)
  finally show ?thesis .
qed

lemma ln_fn_succeeds:
  assumes "n \<le> MAX_NUM" "d \<noteq> 0"
  shows "\<exists>l. ln_fn n d = Inr l"
  using assms by (simp add: ln_fn_def Let_def split: prod.splits)

section \<open>How much the logarithm loses\<close>

text \<open>
  Every division of \<open>ln\<close> truncates. A truncated quotient of at least \<open>2^127\<close> loses at
  most \<open>2^-127\<close> of its logarithm, the 127 squarings double the loss each time, and the
  final rescaling by \<open>LN2_MANTISSA\<close>, which carries 122 fractional bits, loses at most
  \<open>2^-122\<close> per unit of the binary logarithm.
\<close>

lemma ln_div_floor:
  fixes A B F :: int
  assumes "0 < B" "0 < F" "F \<le> A div B"
  shows "ln (real_of_int A / real_of_int B) \<le> ln (real_of_int (A div B)) + 1 / real_of_int F"
proof -
  define X where "X = real_of_int (A div B)"
  define a where "a = real_of_int A / real_of_int B"
  have X: "real_of_int F \<le> X" "0 < X" using assms by (simp_all add: X_def)
  have lo: "X \<le> a" unfolding X_def a_def by (rule real_of_int_div4)
  have hi: "a - X \<le> 1" unfolding X_def a_def by (rule real_of_int_div3)
  have a: "0 < a" using X lo by linarith
  have "ln a - ln X = ln (a / X)" using a X by (simp add: ln_div)
  also have "\<dots> \<le> a / X - 1" using a X by (intro ln_le_minus_one) simp
  also have "\<dots> = (a - X) / X" using X by (simp add: field_simps)
  also have "\<dots> \<le> 1 / X" using hi X by (intro divide_right_mono) simp_all
  also have "\<dots> \<le> 1 / real_of_int F"
    using X assms by (intro divide_left_mono) simp_all
  finally show ?thesis unfolding X_def a_def by simp
qed

lemma ln_for_le: "ln_for k x res \<le> res + 2 ^ k - 1"
proof (induction k arbitrary: x res)
  case 0
  then show ?case by simp
next
  case (Suc k)
  show ?case
  proof (cases "x * x div FIXED_1 \<ge> FIXED_2")
    case True
    then have "ln_for (Suc k) x res = ln_for k (x * x div FIXED_1 div 2) (res + ONE * 2 ^ k)"
      by (simp add: Let_def)
    also have "\<dots> \<le> res + ONE * 2 ^ k + 2 ^ k - 1" by (rule Suc.IH)
    also have "\<dots> = res + 2 ^ Suc k - 1" by (simp add: ONE_def)
    finally show ?thesis .
  next
    case False
    then have "ln_for (Suc k) x res = ln_for k (x * x div FIXED_1) res"
      by (simp add: Let_def)
    also have "\<dots> \<le> res + 2 ^ k - 1" by (rule Suc.IH)
    also have "\<dots> \<le> res + 2 ^ Suc k - 1"
      using zero_less_power[of "2::int" k] by (simp only: power_Suc) linarith
    finally show ?thesis .
  qed
qed

lemma ln_for_lower:
  assumes "FIXED_1 \<le> x" "x < FIXED_2"
  shows "real_of_int res * ln 2 + 2 ^ k * ln (real_of_int x / 2 ^ 127)
           \<le> real_of_int (ln_for k x res) * ln 2 + (2 ^ Suc k - 2) / 2 ^ 127 + ln 2"
  using assms
proof (induction k arbitrary: x res)
  case 0
  have "real_of_int x / 2 ^ 127 \<le> 2"
    using "0.prems" by (simp add: FIXED_2_eq)
  moreover have "0 < real_of_int x / 2 ^ 127"
    using "0.prems" by (simp add: FIXED_1_eq)
  ultimately have "ln (real_of_int x / 2 ^ 127) \<le> ln 2"
    by (subst ln_le_cancel_iff) simp_all
  then show ?case by simp
next
  case (Suc k)
  define F :: real where "F = 2 ^ 127"
  define P :: real where "P = 2 ^ k"
  define x' where "x' = (x * x) div FIXED_1"
  have F: "0 < F" by (simp add: F_def)
  have P: "0 < P" by (simp add: P_def)
  have x: "2 ^ 127 \<le> x" "x < 2 ^ 128" using Suc.prems by (simp_all add: FIXED_1_eq FIXED_2_eq)
  have xpos: "0 < real_of_int x" using x by simp
  have sq_lo: "(2::int) ^ 127 * 2 ^ 127 \<le> x * x"
    using x by (intro mult_mono) simp_all
  have sq_hi: "x * x < 2 ^ 128 * (2 ^ 128 :: int)"
    using x by (intro mult_strict_mono) simp_all
  have "(2::int) ^ 127 \<le> x * x"
    using sq_lo by (smt (verit) mult_le_cancel_left1 one_le_numeral one_le_power zero_less_numeral zero_less_power)
  moreover have "x * x < 2 ^ 127 * (2 ^ 129 :: int)" using sq_hi by simp
  ultimately have x'_lt: "x' < 2 ^ 129"
    unfolding x'_def FIXED_1_eq by (rule div_pow2_bounds(2))
  have "((2::int) ^ 127 * 2 ^ 127) div 2 ^ 127 \<le> (x * x) div 2 ^ 127"
    using sq_lo by (intro zdiv_mono1) simp_all
  then have x'_ge: "2 ^ 127 \<le> x'" by (simp add: x'_def FIXED_1_eq)
  have x'pos: "0 < real_of_int x'" using x'_ge by simp
  have "ln (real_of_int (x * x) / real_of_int (2 ^ 127))
        \<le> ln (real_of_int ((x * x) div 2 ^ 127)) + 1 / real_of_int (2 ^ 127)"
    using x'_ge by (intro ln_div_floor) (simp_all add: x'_def FIXED_1_eq)
  moreover have "ln (real_of_int (x * x) / real_of_int (2 ^ 127)) = 2 * ln (real_of_int x) - ln F"
    using xpos by (simp add: ln_div ln_mult F_def)
  ultimately have sq: "2 * (ln (real_of_int x) - ln F) \<le> (ln (real_of_int x') - ln F) + 1 / F"
    by (simp add: x'_def FIXED_1_eq F_def)
  define a where "a = ln (real_of_int x / 2 ^ 127)"
  define b where "b = ln (real_of_int x' / 2 ^ 127)"
  have a: "a = ln (real_of_int x) - ln F" using xpos by (simp add: a_def ln_div F_def)
  have b: "b = ln (real_of_int x') - ln F" using x'pos by (simp add: b_def ln_div F_def)
  have ab: "2 * a \<le> b + 1 / F" using sq by (simp add: a b)
  define G where "G = real_of_int (ln_for (Suc k) x res) * ln 2"
  have c1: "(2 ^ Suc k - 2) / (2 ^ 127 :: real) = (2 * P - 2) / F"
    by (simp only: P_def F_def power_Suc)
  have c2: "(2 ^ Suc (Suc k) - 2) / (2 ^ 127 :: real) = (4 * P - 2) / F"
    by (simp only: P_def F_def power_Suc) simp
  have goal_lhs: "real_of_int res * ln 2 + 2 ^ Suc k * a = real_of_int res * ln 2 + P * (2 * a)"
    by (simp add: P_def)
  have Pab: "P * (2 * a) \<le> P * (b + 1 / F)"
    using ab P by (intro mult_left_mono) simp_all
  have main: "real_of_int res * ln 2 + P * (2 * a) \<le> G + (4 * P - 2) / F + ln 2"
  proof (cases "x' \<ge> FIXED_2")
    case True
    define x'' where "x'' = x' div 2"
    have x''_ge: "2 ^ 127 \<le> x''" using True by (simp add: x''_def FIXED_2_eq)
    have x''_lt: "x'' < 2 ^ 128" using x'_lt by (simp add: x''_def)
    have x''pos: "0 < real_of_int x''" using x''_ge by simp
    define c where "c = ln (real_of_int x'' / 2 ^ 127)"
    have c: "c = ln (real_of_int x'') - ln F" using x''pos by (simp add: c_def ln_div F_def)
    have "ln (real_of_int x' / real_of_int 2)
          \<le> ln (real_of_int (x' div 2)) + 1 / real_of_int (2 ^ 127)"
      using x''_ge by (intro ln_div_floor) (simp_all add: x''_def)
    then have bc: "b \<le> c + ln 2 + 1 / F"
      using x'pos by (simp add: b c ln_div x''_def F_def)
    have "P * (b + 1 / F) \<le> P * (c + ln 2 + 2 / F)"
      using bc P by (intro mult_left_mono) simp_all
    with Pab have step: "P * (2 * a) \<le> P * c + P * ln 2 + 2 * P / F"
      by (simp add: algebra_simps)
    have eq: "ln_for (Suc k) x res = ln_for k x'' (res + ONE * 2 ^ k)"
      using True by (simp add: Let_def x'_def x''_def)
    have "real_of_int (res + ONE * 2 ^ k) * ln 2 + 2 ^ k * ln (real_of_int x'' / 2 ^ 127)
        \<le> real_of_int (ln_for k x'' (res + ONE * 2 ^ k)) * ln 2 + (2 ^ Suc k - 2) / 2 ^ 127 + ln 2"
      by (rule Suc.IH) (use x''_ge x''_lt in \<open>simp_all add: FIXED_1_eq FIXED_2_eq\<close>)
    then have "real_of_int (res + ONE * 2 ^ k) * ln 2 + P * c \<le> G + (2 * P - 2) / F + ln 2"
      unfolding c1 by (simp only: G_def eq P_def c_def)
    moreover have "real_of_int (res + ONE * 2 ^ k) = real_of_int res + P"
      by (simp add: P_def ONE_def)
    ultimately have "(real_of_int res + P) * ln 2 + P * c \<le> G + (2 * P - 2) / F + ln 2"
      by (simp only:)
    then have IH: "real_of_int res * ln 2 + P * ln 2 + P * c \<le> G + (2 * P - 2) / F + ln 2"
      by (simp only: distrib_right)
    have "(2 * P - 2) / F + 2 * P / F = (4 * P - 2) / F"
      by (simp add: diff_divide_distrib add_divide_distrib)
    with step IH show ?thesis by linarith
  next
    case False
    have eq: "ln_for (Suc k) x res = ln_for k x' res"
      using False by (simp add: Let_def x'_def)
    have "real_of_int res * ln 2 + 2 ^ k * ln (real_of_int x' / 2 ^ 127)
        \<le> real_of_int (ln_for k x' res) * ln 2 + (2 ^ Suc k - 2) / 2 ^ 127 + ln 2"
      by (rule Suc.IH) (use x'_ge False in \<open>simp_all add: FIXED_1_eq\<close>)
    then have IH: "real_of_int res * ln 2 + P * b \<le> G + (2 * P - 2) / F + ln 2"
      unfolding c1 by (simp only: G_def eq P_def b_def)
    have step: "P * (2 * a) \<le> P * b + P / F"
      using Pab by (simp add: algebra_simps)
    have "(2 * P - 2) / F + P / F \<le> (4 * P - 2) / F"
      using P F by (simp add: field_simps)
    with step IH show ?thesis by linarith
  qed
  show ?case
    unfolding c2 a_def[symmetric] goal_lhs G_def[symmetric] by (rule main)
qed

lemma ln_fn_lower:
  assumes "ln_fn n d = Inr l" "0 < d" "d \<le> n"
  shows "ln (real_of_int n / real_of_int d) * 2 ^ 127 \<le> real_of_int l + 4134"
proof -
  define x0 where "x0 = n * FIXED_1 div d"
  define count where "count = floorLog2 (x0 div FIXED_1)"
  define x where "x = (if x0 \<ge> FIXED_2 then x0 div 2 ^ count else x0)"
  define res where "res = (if x0 \<ge> FIXED_2 then int count * FIXED_1 else 0)"
  define res' where "res' = (if x > FIXED_1 then ln_for MAX_PRECISION x res else res)"
  define F :: real where "F = 2 ^ 127"
  have F: "0 < F" by (simp add: F_def)
  have l: "l = (res' * LN2_MANTISSA) div 2 ^ LN2_EXPONENT"
    using assms(1)
    by (auto simp: ln_fn_def Let_def x0_def x_def res_def res'_def count_def split: if_splits)
  have n_le: "n \<le> MAX_NUM"
    using assms(1) by (auto simp: ln_fn_def split: if_splits)
  let ?q = "real_of_int n / real_of_int d"
  have npos: "0 < n" using assms by simp
  \<comment> \<open>the ratio in fixed point\<close>
  have "d * 2 ^ 127 div d \<le> n * 2 ^ 127 div d"
    using assms by (intro zdiv_mono1 mult_right_mono) simp_all
  then have x0_ge: "2 ^ 127 \<le> x0"
    using assms by (simp add: x0_def FIXED_1_eq)
  have x0_pos: "0 < real_of_int x0" using x0_ge by simp
  have "ln (real_of_int (n * 2 ^ 127) / real_of_int d)
        \<le> ln (real_of_int (n * 2 ^ 127 div d)) + 1 / real_of_int (2 ^ 127)"
    using assms x0_ge by (intro ln_div_floor) (simp_all add: x0_def FIXED_1_eq)
  moreover have "ln (real_of_int (n * 2 ^ 127) / real_of_int d) = ln ?q + ln F"
  proof -
    define q where "q = ?q"
    have q: "0 < q" using assms npos by (simp add: q_def)
    have "real_of_int (n * 2 ^ 127) / real_of_int d = q * F" by (simp add: F_def q_def)
    moreover have "ln (q * F) = ln q + ln F"
      using q F by (simp add: ln_mult)
    ultimately show ?thesis unfolding q_def by (simp only:)
  qed
  ultimately have "ln ?q + ln F \<le> ln (real_of_int x0) + 1 / F"
    by (simp add: x0_def FIXED_1_eq F_def)
  moreover have "ln (real_of_int x0 / 2 ^ 127) = ln (real_of_int x0) - ln F"
    using x0_pos by (simp add: ln_div F_def)
  ultimately have a1: "ln ?q \<le> ln (real_of_int x0 / 2 ^ 127) + 1 / F" by linarith
  \<comment> \<open>the integer part\<close>
  have st: "FIXED_1 \<le> x \<and> x < FIXED_2 \<and> 0 \<le> res \<and> res \<le> 128 * 2 ^ 127
      \<and> ln (real_of_int x0 / 2 ^ 127)
          \<le> real_of_int res * ln 2 / F + ln (real_of_int x / 2 ^ 127) + 1 / F"
  proof (cases "x0 \<ge> FIXED_2")
    case False
    then show ?thesis using x0_ge F by (simp add: x_def res_def FIXED_1_eq)
  next
    case True
    define m where "m = x0 div FIXED_1"
    have "2 ^ 128 div 2 ^ 127 \<le> x0 div (2 ^ 127 :: int)"
      using True unfolding FIXED_2_eq by (intro zdiv_mono1) simp_all
    then have m1: "1 \<le> m" by (simp add: m_def FIXED_1_eq)
    have m_le: "m \<le> n"
    proof -
      have "0 \<le> n * FIXED_1" using npos by (simp add: FIXED_1_eq)
      from zdiv_mono2[OF this, of 1 d] assms have "n * FIXED_1 div d \<le> n * FIXED_1" by simp
      then have "n * FIXED_1 div d div FIXED_1 \<le> n * FIXED_1 div FIXED_1"
        by (intro zdiv_mono1) (simp_all add: FIXED_1_eq)
      then show ?thesis by (simp add: m_def x0_def FIXED_1_eq)
    qed
    have m_lt: "m < 2 ^ 129" using m_le n_le by (simp add: MAX_NUM_def)
    then have m256: "m < 2 ^ 256" by simp
    have cm: "2 ^ count \<le> m" "m < 2 ^ Suc count"
      unfolding count_def m_def[symmetric] using m1 m256 by (rule floorLog2_exact)+
    have "(2::int) ^ count < 2 ^ 129" using cm(1) m_lt by linarith
    then have "count < 129" by (rule power_less_imp_less_exp[rotated]) simp
    then have count: "count \<le> 128" by simp
    define rr where "rr = x0 mod 2 ^ 127"
    have rr: "0 \<le> rr" "rr < 2 ^ 127" by (simp_all add: rr_def)
    have x0_split: "x0 = m * 2 ^ 127 + rr"
      unfolding m_def FIXED_1_eq rr_def by simp
    have "m * 2 ^ 127 \<le> x0"
      using x0_split rr by linarith
    moreover have "2 ^ count * 2 ^ 127 \<le> m * (2 ^ 127 :: int)"
      using cm by (intro mult_right_mono) simp_all
    ultimately have lo: "2 ^ count * 2 ^ 127 \<le> x0" by linarith
    have "x0 < (m + 1) * 2 ^ 127"
      using x0_split rr by (simp add: algebra_simps)
    moreover have "(m + 1) * 2 ^ 127 \<le> 2 ^ Suc count * (2 ^ 127 :: int)"
      using cm by (intro mult_right_mono) simp_all
    ultimately have "x0 < 2 ^ Suc count * (2 ^ 127 :: int)" by linarith
    then have hi: "x0 < 2 ^ count * 2 ^ 128" by simp
    have "(2::int) ^ count \<le> 2 ^ count * 2 ^ 127" by simp
    with lo have lo': "2 ^ count \<le> x0" by linarith
    have x_lt: "x0 div 2 ^ count < 2 ^ 128"
      using lo' hi by (rule div_pow2_bounds(2))
    have "(2 ^ count * 2 ^ 127) div 2 ^ count \<le> x0 div (2 ^ count :: int)"
      using lo by (intro zdiv_mono1) simp_all
    then have x_ge: "2 ^ 127 \<le> x0 div 2 ^ count" by simp
    have xeq: "x = x0 div 2 ^ count" using True by (simp add: x_def)
    have reseq: "res = int count * 2 ^ 127" using True by (simp add: res_def FIXED_1_eq)
    have xpos: "0 < real_of_int x" using x_ge xeq by simp
    have "ln (real_of_int x0 / real_of_int (2 ^ count))
          \<le> ln (real_of_int (x0 div 2 ^ count)) + 1 / real_of_int (2 ^ 127)"
      using x_ge by (intro ln_div_floor) simp_all
    moreover have "ln (real_of_int x0 / real_of_int (2 ^ count))
        = ln (real_of_int x0) - real count * ln 2"
      using x0_pos by (simp add: ln_div ln_realpow)
    ultimately have "ln (real_of_int x0) - real count * ln 2 \<le> ln (real_of_int x) + 1 / F"
      by (simp add: xeq F_def)
    moreover have "ln (real_of_int x0 / 2 ^ 127) = ln (real_of_int x0) - ln F"
      using x0_pos by (simp add: ln_div F_def)
    moreover have "ln (real_of_int x / 2 ^ 127) = ln (real_of_int x) - ln F"
      using xpos by (simp add: ln_div F_def)
    moreover have "real_of_int res * ln 2 / F = real count * ln 2"
      by (simp add: reseq F_def)
    ultimately have "ln (real_of_int x0 / 2 ^ 127)
          \<le> real_of_int res * ln 2 / F + ln (real_of_int x / 2 ^ 127) + 1 / F"
      by linarith
    moreover have "res \<le> 128 * 2 ^ 127"
      unfolding reseq using count by (intro mult_right_mono) simp_all
    moreover have "0 \<le> res" by (simp add: reseq)
    ultimately show ?thesis
      using x_ge x_lt xeq by (simp add: FIXED_1_eq FIXED_2_eq)
  qed
  \<comment> \<open>the fraction\<close>
  have fr: "real_of_int res * ln 2 + F * ln (real_of_int x / 2 ^ 127)
      \<le> real_of_int res' * ln 2 + 2 + ln 2"
  proof (cases "x > FIXED_1")
    case True
    have "real_of_int res * ln 2 + 2 ^ 127 * ln (real_of_int x / 2 ^ 127)
           \<le> real_of_int (ln_for 127 x res) * ln 2 + (2 ^ Suc 127 - 2) / 2 ^ 127 + ln 2"
      using st by (intro ln_for_lower) simp_all
    moreover have "(2 ^ Suc 127 - 2) / (2 ^ 127 :: real) \<le> 2" by simp
    ultimately show ?thesis
      using True unfolding res'_def MAX_PRECISION_def F_def by (simp only: if_True)
  next
    case False
    with st have "x = 2 ^ 127" by (simp add: FIXED_1_eq)
    moreover have "0 \<le> ln (2::real)" by simp
    ultimately show ?thesis using False by (simp add: res'_def)
  qed
  have res'_ge: "0 \<le> res'"
    using st ln_for_ge[of res MAX_PRECISION x] by (simp add: res'_def)
  have res'_le: "res' \<le> 129 * 2 ^ 127"
  proof -
    have "res' \<le> res + 2 ^ 127 - 1"
      using ln_for_le[of 127 x res] by (simp add: res'_def MAX_PRECISION_def)
    with st show ?thesis by linarith
  qed
  \<comment> \<open>together, before the rescaling\<close>
  have "F * ln ?q \<le> F * (ln (real_of_int x0 / 2 ^ 127) + 1 / F)"
    using a1 F by (intro mult_left_mono) simp_all
  also have "\<dots> = F * ln (real_of_int x0 / 2 ^ 127) + 1"
    using F by (simp add: algebra_simps)
  also have "F * ln (real_of_int x0 / 2 ^ 127)
      \<le> F * (real_of_int res * ln 2 / F + ln (real_of_int x / 2 ^ 127) + 1 / F)"
    using st F by (intro mult_left_mono) simp_all
  also have "\<dots> = real_of_int res * ln 2 + F * ln (real_of_int x / 2 ^ 127) + 1"
    using F by (simp add: algebra_simps)
  finally have b1: "F * ln ?q \<le> real_of_int res' * ln 2 + 4 + ln 2"
    using fr by linarith
  have "ln (2::real) < 1" by (rule ln_2_less_1)
  with b1 have b2: "F * ln ?q \<le> real_of_int res' * ln 2 + 5" by linarith
  \<comment> \<open>the rescaling\<close>
  have "real_of_int (res' * LN2_MANTISSA) / real_of_int (2 ^ 122) - real_of_int l \<le> 1"
    unfolding l LN2_EXPONENT_def by (rule real_of_int_div3)
  then have c1: "real_of_int res' * (real_of_int LN2_MANTISSA / 2 ^ 122) \<le> real_of_int l + 1"
    by simp
  have "real_of_int res' * (ln 2 - 1 / 2 ^ 122)
        \<le> real_of_int res' * (real_of_int LN2_MANTISSA / 2 ^ 122)"
  proof (rule mult_left_mono)
    have "ln 2 \<le> real_of_int (LN2_MANTISSA + 1) / 2 ^ 122" by (rule LN2_MANTISSA_ge_ln2)
    then show "ln 2 - 1 / 2 ^ 122 \<le> real_of_int LN2_MANTISSA / 2 ^ 122"
      by (simp add: add_divide_distrib)
    show "0 \<le> real_of_int res'" using res'_ge by simp
  qed
  then have c2: "real_of_int res' * ln 2 - real_of_int res' / 2 ^ 122 \<le> real_of_int l + 1"
    using c1 by (simp add: algebra_simps)
  have "real_of_int res' \<le> real_of_int (129 * 2 ^ 127)"
    using res'_le by (simp only: of_int_le_iff)
  then have "real_of_int res' / 2 ^ 122 \<le> real_of_int (129 * 2 ^ 127) / 2 ^ 122"
    by (intro divide_right_mono) simp_all
  also have "\<dots> = 4128" by simp
  finally have c3: "real_of_int res' / 2 ^ 122 \<le> 4128" .
  from b2 c2 c3 have "F * ln ?q \<le> real_of_int l + 4134" by linarith
  then show ?thesis by (simp add: F_def mult.commute)
qed

lemma ln_fn_2_1: "ln_fn 2 1 = Inr (32 * LN2_MANTISSA)"
  by code_simp

text \<open>
  C7. For \<open>1 \<le> d \<le> n \<le> MAX_NUM\<close> the result of \<open>ln(n, d)\<close> is to be exactly
  \<open>floor(ln(n / d) * 2^127)\<close>, which is also what the function's own description in the
  source says (\<open>Return floor(ln(numerator / denominator) * 2 ^ MAX_PRECISION)\<close>). The code
  does not compute it: \<open>ln(2, 1)\<close> returns \<open>32 * LN2_MANTISSA\<close>, which is
  \<open>117932881612756647068972071382077242176\<close>, while \<open>floor(ln 2 * 2^127)\<close> is
  \<open>117932881612756647068972071382077242199\<close>, 23 more. What the code does deliver is in
  \<open>ln_fn_nonneg\<close>, \<open>ln_fn_upper\<close> and \<open>ln_fn_lower\<close>: a nonnegative value that is at most
  the real \<open>ln(n / d) * 2^127\<close> and less than 4135 below it.
\<close>

theorem ln_fn_below_documented_floor:
  "(1::int) \<le> 1 \<and> (1::int) \<le> 2 \<and> 2 \<le> MAX_NUM
   \<and> ln_fn 2 1 = Inr 117932881612756647068972071382077242176
   \<and> \<lfloor>ln (real_of_int 2 / real_of_int 1) * 2 ^ 127\<rfloor>
       = 117932881612756647068972071382077242199"
  using ln_fn_2_1 floor_ln2 by (simp add: MAX_NUM_def LN2_MANTISSA_def)

section \<open>The exponential is approximated from below\<close>

lemma exp_partial_sum_le:
  assumes "0 \<le> (z::real)"
  shows "(\<Sum>n<m. z ^ n / fact n) \<le> exp z"
proof -
  have "(\<Sum>n<m. inverse (fact n) * z ^ n) \<le> (\<Sum>n. inverse (fact n) * z ^ n)"
    using assms by (intro sum_le_suminf summable_exp) simp_all
  also have "\<dots> = exp z"
    by (simp add: exp_def mult.commute divide_inverse)
  finally show ?thesis by (simp add: divide_inverse mult.commute)
qed

lemma fixedExp_terms_upper:
  fixes N :: real
  assumes "0 \<le> x" "0 \<le> N"
    and "0 \<le> xi"
    and "real_of_int xi \<le> 2 ^ p * (real_of_int x / 2 ^ p) ^ k"
    and "coefficients_chain (int (Suc k)) prev cs"
    and "real_of_int prev * fact k = N"
  shows "real_of_int (fixedExp_terms cs x p xi res)
           \<le> real_of_int res
             + 2 ^ p * N * (\<Sum>j<length cs. (real_of_int x / 2 ^ p) ^ (Suc k + j) / fact (Suc k + j))"
  using assms(3-)
proof (induction cs arbitrary: k xi res prev)
  case Nil
  then show ?case by simp
next
  case (Cons c cs)
  let ?z = "real_of_int x / 2 ^ p"
  define xi' where "xi' = (xi * x) div 2 ^ p"
  have z: "0 \<le> ?z" using assms(1) by simp
  have xi'_nonneg: "0 \<le> xi'"
    using Cons.prems(1) assms(1) by (simp add: xi'_def pos_imp_zdiv_nonneg_iff)
  have "real_of_int xi' \<le> real_of_int (xi * x) / real_of_int (2 ^ p)"
    unfolding xi'_def by (rule real_of_int_div4)
  also have "\<dots> = real_of_int xi * ?z" by simp
  also have "\<dots> \<le> (2 ^ p * ?z ^ k) * ?z"
    using Cons.prems(2) z by (intro mult_right_mono)
  finally have xi'_le: "real_of_int xi' \<le> 2 ^ p * ?z ^ Suc k" by (simp add: mult_ac)
  have cm: "c * int (Suc k) = prev" and rest: "coefficients_chain (int (Suc (Suc k))) c cs"
    using Cons.prems(3) by (simp_all add: add.commute)
  have "real_of_int c * fact (Suc k) = real_of_int (c * int (Suc k)) * fact k"
    by (simp add: mult_ac)
  also have "\<dots> = N" unfolding cm by (rule Cons.prems(4))
  finally have c: "real_of_int c * fact (Suc k) = N" .
  have fpos: "(0::real) < fact (Suc k)" by (rule fact_gt_zero)
  from c fpos have c_eq: "real_of_int c = N / fact (Suc k)"
    by (simp add: field_simps del: fact_Suc)
  then have c_nonneg: "0 \<le> real_of_int c" using assms(2) by simp
  have "real_of_int (fixedExp_terms (c # cs) x p xi res)
        = real_of_int (fixedExp_terms cs x p xi' (res + xi' * c))"
    by (simp add: Let_def xi'_def)
  also have "\<dots> \<le> real_of_int (res + xi' * c)
             + 2 ^ p * N * (\<Sum>j<length cs. ?z ^ (Suc (Suc k) + j) / fact (Suc (Suc k) + j))"
    by (rule Cons.IH[OF xi'_nonneg xi'_le rest c])
  also have "real_of_int (res + xi' * c)
      \<le> real_of_int res + (2 ^ p * ?z ^ Suc k) * (N / fact (Suc k))"
    using xi'_le c_nonneg unfolding c_eq[symmetric] by (simp add: mult_right_mono)
  also have "real_of_int res + (2 ^ p * ?z ^ Suc k) * (N / fact (Suc k))
             + 2 ^ p * N * (\<Sum>j<length cs. ?z ^ (Suc (Suc k) + j) / fact (Suc (Suc k) + j))
        = real_of_int res
            + 2 ^ p * N * (\<Sum>j<length (c # cs). ?z ^ (Suc k + j) / fact (Suc k + j))"
    by (simp add: sum.lessThan_Suc_shift algebra_simps del: fact_Suc power_Suc sum.lessThan_Suc)
  finally show ?case by simp
qed

lemma fixedExp_coefficients_chain:
  "coefficients_chain 2 0x688589cc0e9505e2f2fee5580000000 fixedExp_coefficients"
  by (simp add: fixedExp_coefficients_def)

lemma fixedExp_upper:
  assumes "0 \<le> x"
  shows "real_of_int (fixedExp x p) \<le> 2 ^ p * exp (real_of_int x / 2 ^ p)"
proof -
  let ?z = "real_of_int x / 2 ^ p"
  define Ni :: int where "Ni = 0x688589cc0e9505e2f2fee5580000000"
  define n where "n = length fixedExp_coefficients"
  define T where "T = fixedExp_terms fixedExp_coefficients x p x 0"
  define S where "S = (\<Sum>j<n. ?z ^ (Suc (Suc j)) / fact (Suc (Suc j)))"
  have Ni_pos: "0 < real_of_int Ni" by (simp add: Ni_def)
  have z: "0 \<le> ?z" using assms by simp
  have "real_of_int T \<le> real_of_int 0
      + 2 ^ p * real_of_int Ni * (\<Sum>j<length fixedExp_coefficients. ?z ^ (Suc 1 + j) / fact (Suc 1 + j))"
    unfolding T_def
  proof (rule fixedExp_terms_upper[where prev = Ni])
    show "coefficients_chain (int (Suc 1)) Ni fixedExp_coefficients"
      using fixedExp_coefficients_chain by (simp add: Ni_def)
    show "real_of_int Ni * fact 1 = real_of_int Ni" by simp
    show "real_of_int x \<le> 2 ^ p * ?z ^ 1" by simp
  qed (use assms Ni_pos in simp_all)
  then have T: "real_of_int T \<le> real_of_int Ni * (2 ^ p * S)"
    by (simp add: S_def n_def mult_ac del: fact_Suc power_Suc)
  have "real_of_int (T div Ni) \<le> real_of_int T / real_of_int Ni"
    by (rule real_of_int_div4)
  also have "\<dots> \<le> 2 ^ p * S"
    using T Ni_pos by (simp add: field_simps)
  finally have "real_of_int (T div Ni) + real_of_int x + 2 ^ p
      \<le> 2 ^ p * S + real_of_int x + 2 ^ p"
    by simp
  also have "\<dots> = 2 ^ p * (S + ?z + 1)"
    by (simp add: algebra_simps)
  also have "S + ?z + 1 = (\<Sum>m<Suc (Suc n). ?z ^ m / fact m)"
    unfolding S_def
    by (simp only: sum.lessThan_Suc_shift[where n = "Suc n"] sum.lessThan_Suc_shift[where n = n])
       simp
  also have "2 ^ p * (\<Sum>m<Suc (Suc n). ?z ^ m / fact m) \<le> 2 ^ p * exp ?z"
    by (intro mult_left_mono exp_partial_sum_le z) simp
  finally show ?thesis
    by (simp add: fixedExp_def ONE_def T_def Ni_def)
qed


subsection \<open>\<open>power\<close> never exceeds the real power\<close>

lemma power_fn_upper:
  assumes "power_fn baseN baseD expN expD = Inr (result, precision)"
    and "0 < baseD" "baseD \<le> baseN" "0 \<le> expN" "0 < expD"
  shows "real_of_int result
           \<le> 2 ^ precision
               * exp (real_of_int expN / real_of_int expD
                       * ln (real_of_int baseN / real_of_int baseD))"
proof -
  from assms(1) obtain l where l: "ln_fn baseN baseD = Inr l"
    by (auto simp: power_fn_def split: sum.splits)
  define lnBaseTimesExp where "lnBaseTimesExp = l * expN div expD"
  define y where "y = lnBaseTimesExp div 2 ^ (MAX_PRECISION - precision)"
  have pos: "findPositionInMaxExpArray lnBaseTimesExp = Inr precision"
    and res: "result = fixedExp y precision"
    using assms(1,5) l
    by (auto simp: power_fn_def Let_def lnBaseTimesExp_def y_def split: sum.splits)
  have p: "precision \<le> 127" using findPosition_range[OF pos] by simp
  let ?q = "real_of_int baseN / real_of_int baseD"
  let ?e = "real_of_int expN / real_of_int expD"
  have e: "0 \<le> ?e" using assms by simp
  have l_nonneg: "0 \<le> l" using ln_fn_nonneg[OF l] .
  have l_le: "real_of_int l \<le> ln ?q * 2 ^ 127"
    using l assms by (intro ln_fn_upper) simp_all
  have "0 \<le> l * expN" using l_nonneg assms by simp
  then have lbe_nonneg: "0 \<le> lnBaseTimesExp"
    using assms by (simp add: lnBaseTimesExp_def pos_imp_zdiv_nonneg_iff)
  then have y_nonneg: "0 \<le> y" by (simp add: y_def pos_imp_zdiv_nonneg_iff)
  have "real_of_int lnBaseTimesExp \<le> real_of_int (l * expN) / real_of_int expD"
    unfolding lnBaseTimesExp_def by (rule real_of_int_div4)
  also have "\<dots> = real_of_int l * ?e" by simp
  also have "\<dots> \<le> (ln ?q * 2 ^ 127) * ?e"
    using l_le e by (intro mult_right_mono)
  finally have lbe_le: "real_of_int lnBaseTimesExp \<le> ?e * ln ?q * 2 ^ 127"
    by (simp add: mult_ac)
  define P :: real where "P = 2 ^ precision"
  define Q :: real where "Q = 2 ^ (127 - precision)"
  have PQ: "(2::real) ^ 127 = (2 ^ precision) * Q"
    unfolding Q_def using p by (simp only: power_add [symmetric]) simp
  have Q_pos: "0 < Q" by (simp add: Q_def)
  have "real_of_int y \<le> real_of_int lnBaseTimesExp / real_of_int (2 ^ (127 - precision))"
    unfolding y_def MAX_PRECISION_def by (rule real_of_int_div4)
  then have "real_of_int y \<le> real_of_int lnBaseTimesExp / Q"
    by (simp add: Q_def)
  then have "real_of_int y * Q \<le> real_of_int lnBaseTimesExp"
    using Q_pos by (simp add: field_simps)
  also note lbe_le
  also have "?e * ln ?q * 2 ^ 127 = (?e * ln ?q * 2 ^ precision) * Q"
    by (simp only: PQ mult.assoc)
  finally have "real_of_int y \<le> ?e * ln ?q * 2 ^ precision"
    using Q_pos by (simp only: mult_le_cancel_right_pos)
  then have "real_of_int y / 2 ^ precision \<le> ?e * ln ?q"
    by (simp add: field_simps)
  then have "exp (real_of_int y / 2 ^ precision) \<le> exp (?e * ln ?q)"
    by simp
  then have "2 ^ precision * exp (real_of_int y / 2 ^ precision)
      \<le> 2 ^ precision * exp (?e * ln ?q)"
    by (intro mult_left_mono) simp_all
  with fixedExp_upper[OF y_nonneg, of precision] show ?thesis
    unfolding res by linarith
qed

lemma power_fn_upper_powr:
  assumes "power_fn baseN baseD expN expD = Inr (result, precision)"
    and "0 < baseD" "baseD \<le> baseN" "0 \<le> expN" "0 < expD"
  shows "real_of_int result
           \<le> (real_of_int baseN / real_of_int baseD) powr (real_of_int expN / real_of_int expD)
               * 2 ^ precision"
proof -
  have "baseN \<noteq> 0" "baseD \<noteq> 0" using assms by simp_all
  then show ?thesis
    using power_fn_upper[OF assms] by (simp add: powr_def mult.commute)
qed

section \<open>How much the exponential loses\<close>

text \<open>
  \<open>fixedExp\<close> sums the series of the exponential up to the term of degree 33, with every
  power truncated. What it loses is the tail of the series, which is small while the
  argument is, and the truncations, which cost less than \<open>exp B + 1\<close> units altogether
  when the argument is at most \<open>B\<close>.
\<close>

lemma exp_partial_sum_ge:
  assumes "0 \<le> (z::real)"
  shows "exp z * (1 - z ^ n / fact n) \<le> (\<Sum>m<n. z ^ m / fact m)"
proof -
  from Maclaurin_exp_le[of z n] obtain t
    where t: "\<bar>t\<bar> \<le> \<bar>z\<bar>"
      and e: "exp z = (\<Sum>m<n. z ^ m / fact m) + exp t / fact n * z ^ n"
    by blast
  have "t \<le> z" using t assms by simp
  then have "exp t \<le> exp z" by simp
  then have "exp t * (z ^ n / fact n) \<le> exp z * (z ^ n / fact n)"
    using assms by (intro mult_right_mono) simp_all
  moreover have "(\<Sum>m<n. z ^ m / fact m) = exp z - exp t * (z ^ n / fact n)"
    using e by simp
  ultimately show ?thesis by (simp only: right_diff_distrib mult_1_right)
qed

lemma fixedExp_terms_lower:
  fixes N B :: real
  assumes "0 \<le> x" "0 \<le> N" "real_of_int x / 2 ^ p \<le> B" "2 \<le> B"
    and "2 ^ p * (real_of_int x / 2 ^ p) ^ k - (B ^ k - 1) \<le> real_of_int xi"
    and "coefficients_chain (int (Suc k)) prev cs"
    and "real_of_int prev * fact k = N"
  shows "real_of_int res
             + 2 ^ p * N * (\<Sum>j<length cs. (real_of_int x / 2 ^ p) ^ (Suc k + j) / fact (Suc k + j))
             - N * (\<Sum>j<length cs. B ^ (Suc k + j) / fact (Suc k + j))
           \<le> real_of_int (fixedExp_terms cs x p xi res)"
  using assms(5-)
proof (induction cs arbitrary: k xi res prev)
  case Nil
  then show ?case by simp
next
  case (Cons c cs)
  define z where "z = real_of_int x / 2 ^ p"
  define xi' where "xi' = (xi * x) div 2 ^ p"
  define W :: real where "W = 2 ^ p"
  have z: "0 \<le> z" "z \<le> B" using assms(1,3) by (simp_all add: z_def)
  have Bk: "1 \<le> B ^ k" using assms(4) by (intro one_le_power) simp
  have "real_of_int (xi * x) / real_of_int (2 ^ p) - real_of_int ((xi * x) div 2 ^ p) \<le> 1"
    by (rule real_of_int_div3)
  then have a: "real_of_int xi * z - 1 \<le> real_of_int xi'"
    by (simp add: z_def xi'_def)
  have "(W * z ^ k - (B ^ k - 1)) * z \<le> real_of_int xi * z"
    using Cons.prems(1) z unfolding z_def W_def by (intro mult_right_mono) simp_all
  moreover have "(B ^ k - 1) * z \<le> (B ^ k - 1) * B"
    using z Bk by (intro mult_left_mono) simp_all
  ultimately have "W * z ^ Suc k - (B ^ k - 1) * B \<le> real_of_int xi * z"
    by (simp add: algebra_simps)
  moreover have "(B ^ k - 1) * B = B ^ Suc k - B" by (simp add: algebra_simps)
  ultimately have xi'_ge: "W * z ^ Suc k - (B ^ Suc k - 1) \<le> real_of_int xi'"
    using a assms(4) by linarith
  have cm: "c * int (Suc k) = prev" and rest: "coefficients_chain (int (Suc (Suc k))) c cs"
    using Cons.prems(2) by (simp_all add: add.commute)
  have "real_of_int c * fact (Suc k) = real_of_int (c * int (Suc k)) * fact k"
    by (simp add: mult_ac)
  also have "\<dots> = N" unfolding cm by (rule Cons.prems(3))
  finally have c: "real_of_int c * fact (Suc k) = N" .
  have fpos: "(0::real) < fact (Suc k)" by (rule fact_gt_zero)
  from c fpos have c_eq: "real_of_int c = N / fact (Suc k)"
    by (simp add: field_simps del: fact_Suc)
  then have c_nonneg: "0 \<le> real_of_int c" using assms(2) by simp
  define SZ where "SZ = (\<Sum>j<length cs. z ^ (Suc (Suc k) + j) / fact (Suc (Suc k) + j))"
  define SB where "SB = (\<Sum>j<length cs. B ^ (Suc (Suc k) + j) / fact (Suc (Suc k) + j))"
  have IH: "real_of_int (res + xi' * c) + W * N * SZ - N * SB
      \<le> real_of_int (fixedExp_terms cs x p xi' (res + xi' * c))"
    unfolding SZ_def SB_def z_def W_def
    by (rule Cons.IH[OF xi'_ge[unfolded z_def W_def] rest c])
  have "(W * z ^ Suc k - (B ^ Suc k - 1)) * real_of_int c \<le> real_of_int xi' * real_of_int c"
    using xi'_ge c_nonneg by (intro mult_right_mono)
  moreover have "(W * z ^ Suc k - B ^ Suc k) * real_of_int c
      \<le> (W * z ^ Suc k - (B ^ Suc k - 1)) * real_of_int c"
    using c_nonneg by (intro mult_right_mono) simp_all
  ultimately have "(W * z ^ Suc k - B ^ Suc k) * (N / fact (Suc k)) \<le> real_of_int xi' * real_of_int c"
    unfolding c_eq by linarith
  then have step: "W * N * (z ^ Suc k / fact (Suc k)) - N * (B ^ Suc k / fact (Suc k))
      \<le> real_of_int xi' * real_of_int c"
    by (simp add: algebra_simps del: fact_Suc power_Suc)
  have sz: "(\<Sum>j<length (c # cs). z ^ (Suc k + j) / fact (Suc k + j))
      = z ^ Suc k / fact (Suc k) + SZ"
    unfolding SZ_def
    by (simp add: sum.lessThan_Suc_shift del: fact_Suc power_Suc sum.lessThan_Suc)
  have sb: "(\<Sum>j<length (c # cs). B ^ (Suc k + j) / fact (Suc k + j))
      = B ^ Suc k / fact (Suc k) + SB"
    unfolding SB_def
    by (simp add: sum.lessThan_Suc_shift del: fact_Suc power_Suc sum.lessThan_Suc)
  have ev: "fixedExp_terms (c # cs) x p xi res = fixedExp_terms cs x p xi' (res + xi' * c)"
    by (simp add: Let_def xi'_def)
  have "real_of_int res + W * N * (z ^ Suc k / fact (Suc k) + SZ)
          - N * (B ^ Suc k / fact (Suc k) + SB)
        \<le> real_of_int (fixedExp_terms cs x p xi' (res + xi' * c))"
    using IH step by (simp add: algebra_simps del: fact_Suc power_Suc)
  then show ?case
    unfolding sz[unfolded z_def] sb ev z_def W_def .
qed

lemma fixedExp_lower:
  fixes B :: real
  assumes "0 \<le> x" "real_of_int x / 2 ^ p \<le> B" "2 \<le> B"
  shows "2 ^ p * (\<Sum>m<Suc (Suc (length fixedExp_coefficients)). (real_of_int x / 2 ^ p) ^ m / fact m)
           - exp B - 1
         \<le> real_of_int (fixedExp x p)"
proof -
  define z where "z = real_of_int x / 2 ^ p"
  define W :: real where "W = 2 ^ p"
  define Ni :: int where "Ni = 0x688589cc0e9505e2f2fee5580000000"
  define n where "n = length fixedExp_coefficients"
  define T where "T = fixedExp_terms fixedExp_coefficients x p x 0"
  define S where "S = (\<Sum>j<n. z ^ (Suc (Suc j)) / fact (Suc (Suc j)))"
  define SB where "SB = (\<Sum>j<n. B ^ (Suc (Suc j)) / fact (Suc (Suc j)))"
  have Ni_pos: "0 < real_of_int Ni" by (simp add: Ni_def)
  have W: "0 < W" by (simp add: W_def)
  have xz: "real_of_int x = W * z" by (simp add: z_def W_def)
  have "real_of_int 0
      + 2 ^ p * real_of_int Ni * (\<Sum>j<length fixedExp_coefficients. (real_of_int x / 2 ^ p) ^ (Suc 1 + j) / fact (Suc 1 + j))
      - real_of_int Ni * (\<Sum>j<length fixedExp_coefficients. B ^ (Suc 1 + j) / fact (Suc 1 + j))
      \<le> real_of_int T"
    unfolding T_def
  proof (rule fixedExp_terms_lower[where prev = Ni])
    show "coefficients_chain (int (Suc 1)) Ni fixedExp_coefficients"
      using fixedExp_coefficients_chain by (simp add: Ni_def)
    show "real_of_int Ni * fact 1 = real_of_int Ni" by simp
    show "2 ^ p * (real_of_int x / 2 ^ p) ^ 1 - (B ^ 1 - 1) \<le> real_of_int x"
      using assms by simp
  qed (use assms Ni_pos in simp_all)
  then have T: "real_of_int Ni * (W * S - SB) \<le> real_of_int T"
    by (simp add: S_def SB_def n_def z_def W_def algebra_simps del: fact_Suc power_Suc)
  have "real_of_int T / real_of_int Ni - real_of_int (T div Ni) \<le> 1"
    by (rule real_of_int_div3)
  moreover have "W * S - SB \<le> real_of_int T / real_of_int Ni"
    using T Ni_pos by (simp add: field_simps)
  ultimately have d: "W * S - SB - 1 \<le> real_of_int (T div Ni)" by linarith
  have sz: "(\<Sum>m<Suc (Suc n). z ^ m / fact m) = S + z + 1"
    unfolding S_def
    by (simp only: sum.lessThan_Suc_shift[where n = "Suc n"] sum.lessThan_Suc_shift[where n = n])
       simp
  have sb: "(\<Sum>m<Suc (Suc n). B ^ m / fact m) = SB + B + 1"
    unfolding SB_def
    by (simp only: sum.lessThan_Suc_shift[where n = "Suc n"] sum.lessThan_Suc_shift[where n = n])
       simp
  have "(\<Sum>m<Suc (Suc n). B ^ m / fact m) \<le> exp B"
    using assms by (intro exp_partial_sum_le) simp
  then have SB: "SB \<le> exp B" using assms unfolding sb by linarith
  have "W * (S + z + 1) - exp B - 1 = (W * S - exp B - 1) + real_of_int x + W"
    by (simp add: xz algebra_simps)
  also have "\<dots> \<le> real_of_int (T div Ni) + real_of_int x + W"
    using d SB by linarith
  also have "\<dots> = real_of_int (fixedExp x p)"
    by (simp add: fixedExp_def ONE_def T_def Ni_def W_def)
  finally have "W * (\<Sum>m<Suc (Suc n). z ^ m / fact m) - exp B - 1 \<le> real_of_int (fixedExp x p)"
    unfolding sz .
  then show ?thesis
    unfolding n_def z_def W_def .
qed

subsection \<open>The tail of the series\<close>

lemma fact_mult_power_le: "fact n * real (Suc n) ^ k \<le> (fact (n + k) :: real)"
proof (induction k)
  case 0
  then show ?case by simp
next
  case (Suc k)
  have "fact n * real (Suc n) ^ Suc k = real (Suc n) * (fact n * real (Suc n) ^ k)"
    by simp
  also have "\<dots> \<le> real (Suc (n + k)) * fact (n + k)"
    using Suc.IH by (intro mult_mono) simp_all
  also have "\<dots> = fact (n + Suc k)" by simp
  finally show ?case .
qed

lemma exp_tail_le:
  fixes z :: real
  assumes "0 \<le> z" "z < real (Suc n)"
  shows "exp z - (\<Sum>k<n. z ^ k / fact k)
           \<le> z ^ n / fact n * (real (Suc n) / (real (Suc n) - z))"
proof -
  define f where "f = (\<lambda>k. z ^ k / fact k)"
  define rho where "rho = z / real (Suc n)"
  define c where "c = z ^ n / fact n"
  have rho: "0 \<le> rho" "rho < 1" using assms by (simp_all add: rho_def)
  have c: "0 \<le> c" using assms by (simp add: c_def)
  have summ: "summable f"
    using summable_exp[of z] by (simp add: f_def divide_inverse mult.commute)
  have ex: "exp z = suminf f"
    by (simp add: f_def exp_def divide_inverse mult.commute)
  have geo: "summable (\<lambda>k. c * rho ^ k)"
    using rho by (intro summable_mult summable_geometric) simp
  have tm: "f (k + n) \<le> c * rho ^ k" for k
  proof -
    have "fact n * real (Suc n) ^ k \<le> (fact (n + k) :: real)" by (rule fact_mult_power_le)
    then have "z ^ (k + n) / fact (n + k) \<le> z ^ (k + n) / (fact n * real (Suc n) ^ k)"
      using assms by (intro divide_left_mono) simp_all
    also have "\<dots> = c * rho ^ k"
      by (simp add: c_def rho_def power_add power_divide)
    finally show ?thesis by (simp add: f_def add.commute)
  qed
  have "suminf f = (\<Sum>k. f (k + n)) + (\<Sum>k<n. f k)"
    by (rule suminf_split_initial_segment[OF summ])
  moreover have "(\<Sum>k. f (k + n)) \<le> (\<Sum>k. c * rho ^ k)"
    by (rule suminf_le[OF tm summable_ignore_initial_segment[OF summ] geo])
  moreover have "(\<Sum>k. c * rho ^ k) = c * (\<Sum>k. rho ^ k)"
    using rho by (intro suminf_mult summable_geometric) simp
  moreover have "(\<Sum>k. rho ^ k) = 1 / (1 - rho)"
    using rho by (intro suminf_geometric) simp
  moreover have "1 / (1 - rho) = real (Suc n) / (real (Suc n) - z)"
    using assms by (simp add: rho_def field_simps)
  ultimately have "exp z - (\<Sum>k<n. f k) \<le> c * (real (Suc n) / (real (Suc n) - z))"
    unfolding ex by simp
  then show ?thesis by (simp only: f_def c_def)
qed

lemma power_exp_mono:
  fixes z :: real
  assumes "0 \<le> z" "z \<le> z0" "z0 \<le> real n"
  shows "z ^ n \<le> z0 ^ n * exp (z - z0)"
proof (cases "z = 0")
  case True
  show ?thesis
  proof (cases "n = 0")
    case True
    with assms have "z0 = z" by simp
    with True show ?thesis by simp
  next
    case False
    then have a: "(0::real) ^ n = 0" by (simp add: power_0_left)
    have b: "0 \<le> z0 ^ n * exp (0 - z0)" using assms by simp
    show ?thesis unfolding \<open>z = 0\<close> a by (rule b)
  qed
next
  case False
  with assms have z: "0 < z" "0 < z0" by simp_all
  define u where "u = z / z0"
  have u: "0 < u" using z by (simp add: u_def)
  have "ln u \<le> u - 1" using u by (rule ln_le_minus_one)
  then have "real n * ln u \<le> real n * (u - 1)"
    by (intro mult_left_mono) simp_all
  also have "real n * (u - 1) = (real n / z0) * (z - z0)"
    using z by (simp add: u_def field_simps)
  also have "\<dots> \<le> 1 * (z - z0)"
    using assms z by (intro mult_right_mono_neg) simp_all
  finally have "exp (real n * ln u) \<le> exp (z - z0)" by simp
  moreover have "exp (real n * ln u) = u ^ n"
    using u by (simp add: exp_of_nat_mult)
  ultimately have "u ^ n \<le> exp (z - z0)" by simp
  then have "z0 ^ n * u ^ n \<le> z0 ^ n * exp (z - z0)"
    using z by (intro mult_left_mono) simp_all
  moreover have "z0 ^ n * u ^ n = z ^ n"
    using z by (simp add: u_def power_divide)
  ultimately show ?thesis by simp
qed

lemma exp_297_32: "10000 \<le> exp (297 / 32 :: real)"
proof -
  have "(\<Sum>k<5. (297 / 512 :: real) ^ k / fact k) \<le> exp (297 / 512)"
    by (rule exp_partial_sum_le) simp
  then have s: "981629136395 / 549755813888 \<le> exp (297 / 512 :: real)"
    by (simp add: eval_nat_numeral lessThan_Suc fact_numeral field_simps)
  have "(10000::real) \<le> (981629136395 / 549755813888) ^ 16"
    by (simp add: power_divide)
  also have "\<dots> \<le> exp (297 / 512) ^ 16"
    using s by (intro power_mono) simp_all
  also have "\<dots> = exp (of_nat 16 * (297 / 512))"
    by (rule exp_of_nat_mult[symmetric])
  also have "of_nat 16 * (297 / 512 :: real) = 297 / 32" by simp
  finally show ?thesis .
qed

lemma length_fixedExp_coefficients: "length fixedExp_coefficients = 32"
  by (simp add: fixedExp_coefficients_def)

lemma exp_series_loss:
  assumes "0 \<le> (z::real)" "z \<le> 297 / 32"
  shows "exp z * (1 - 1 / 2 ^ 31) \<le> (\<Sum>m<Suc (Suc (length fixedExp_coefficients)). z ^ m / fact m)"
proof -
  define n where "n = Suc (Suc (length fixedExp_coefficients))"
  define z0 :: real where "z0 = 297 / 32"
  define S where "S = (\<Sum>m<n. z ^ m / fact m)"
  define K where "K = z0 ^ n / fact n / 10000"
  have n: "n = 34" by (simp add: n_def length_fixedExp_coefficients)
  have z0: "z \<le> z0" "z0 < 35" "z0 \<le> real n" using assms by (simp_all add: z0_def n)
  have K: "0 \<le> K" by (simp add: K_def z0_def)
  define c where "c = z ^ n / fact n"
  define G where "G = 35 / (35 - z0)"
  have c: "0 \<le> c" using assms by (simp add: c_def)
  have G: "0 \<le> G" using z0 by (simp add: G_def)
  have e: "0 < exp z" by simp
  have t1: "exp z - S \<le> c * (real (Suc n) / (real (Suc n) - z))"
    unfolding S_def c_def using assms by (intro exp_tail_le) (simp_all add: n)
  have "real (Suc n) / (real (Suc n) - z) \<le> G"
    using z0 by (simp add: n G_def field_simps)
  then have "c * (real (Suc n) / (real (Suc n) - z)) \<le> c * G"
    using c by (rule mult_left_mono)
  with t1 have tail: "exp z - S \<le> c * G" by linarith
  have p1: "z ^ n \<le> z0 ^ n * exp (z - z0)"
    using assms(1) z0(1,3) by (rule power_exp_mono)
  have "exp (z - z0) = exp z / exp z0" by (rule exp_diff)
  also have "exp z / exp z0 \<le> exp z / 10000"
    using exp_297_32 unfolding z0_def by (intro divide_left_mono) simp_all
  finally have "z0 ^ n * exp (z - z0) \<le> z0 ^ n * (exp z / 10000)"
    by (intro mult_left_mono) (simp_all add: z0_def)
  with p1 have "z ^ n \<le> z0 ^ n * (exp z / 10000)" by linarith
  then have "z ^ n / fact n \<le> z0 ^ n * (exp z / 10000) / fact n"
    by (intro divide_right_mono) simp_all
  also have "\<dots> = K * exp z" by (simp add: K_def)
  finally have "c \<le> K * exp z" by (simp only: c_def)
  then have "c * G \<le> (K * exp z) * G" using G by (rule mult_right_mono)
  with tail have t2: "exp z - S \<le> (K * G) * exp z" by (simp add: mult_ac)
  have "K * G \<le> 1 / 2 ^ 31"
    unfolding K_def G_def z0_def n by (simp add: fact_numeral power_divide)
  then have "(K * G) * exp z \<le> 1 / 2 ^ 31 * exp z"
    using e by (intro mult_right_mono) simp_all
  with t2 have "exp z - S \<le> 1 / 2 ^ 31 * exp z" by linarith
  then have "exp z * (1 - 1 / 2 ^ 31) \<le> S" by (simp add: algebra_simps)
  then show ?thesis unfolding S_def n_def .
qed

subsection \<open>A two-sided bound of \<open>power\<close> at the high precisions\<close>

lemma maxExpArray_75_value: "maxExpArray ! 75 = 1576718937672301888428671268411708276735"
  by code_simp

lemma maxExpArray_75: "real_of_int (maxExpArray ! 75) \<le> 297 / 32 * 2 ^ 127"
  "926 / 100 * 2 ^ 127 \<le> real_of_int (maxExpArray ! 75)"
  unfolding maxExpArray_75_value by simp_all

lemma exp_10_le: "exp (10::real) \<le> 59049"
proof -
  have "exp (10::real) = exp (of_nat 10 * 1)" by simp
  also have "\<dots> = exp 1 ^ 10" by (rule exp_of_nat_mult)
  also have "\<dots> \<le> 3 ^ 10" by (intro power_mono exp_le) simp
  finally show ?thesis by simp
qed

lemma power_fn_precision_75:
  assumes pw: "power_fn baseN baseD expN expD = Inr (result, precision)"
    and "0 < baseD" "baseD \<le> baseN" "0 \<le> expN" "0 < expD"
    and small: "real_of_int expN / real_of_int expD * ln (real_of_int baseN / real_of_int baseD)
                  \<le> 926 / 100"
  shows "75 \<le> precision"
proof -
  from pw obtain l where l: "ln_fn baseN baseD = Inr l"
    by (auto simp: power_fn_def split: sum.splits)
  define lbe where "lbe = l * expN div expD"
  have pos: "findPositionInMaxExpArray lbe = Inr precision"
    using pw assms(5) l by (auto simp: power_fn_def Let_def lbe_def split: sum.splits)
  let ?q = "real_of_int baseN / real_of_int baseD"
  let ?e = "real_of_int expN / real_of_int expD"
  have e: "0 \<le> ?e" using assms by simp
  have l_le: "real_of_int l \<le> ln ?q * 2 ^ 127"
    using l assms by (intro ln_fn_upper) simp_all
  have "real_of_int lbe \<le> real_of_int (l * expN) / real_of_int expD"
    unfolding lbe_def by (rule real_of_int_div4)
  also have "\<dots> = real_of_int l * ?e" by simp
  also have "\<dots> \<le> (ln ?q * 2 ^ 127) * ?e"
    using l_le e by (intro mult_right_mono)
  also have "\<dots> = (?e * ln ?q) * 2 ^ 127" by (simp add: mult_ac)
  also have "\<dots> \<le> 926 / 100 * 2 ^ 127"
    using small by (intro mult_right_mono) simp_all
  also have "\<dots> \<le> real_of_int (maxExpArray ! 75)" by (rule maxExpArray_75(2))
  finally have lbe_le: "lbe \<le> maxExpArray ! 75" by (simp only: of_int_le_iff)
  show ?thesis
  proof (cases lbe rule: findPosition_cases)
    case top
    with pos show ?thesis by simp
  next
    case (inner k)
    with pos have k: "precision = k" by simp
    show ?thesis
    proof (rule ccontr)
      assume "\<not> 75 \<le> precision"
      then have "k + 1 \<le> 75" using k by simp
      then have "maxExpArray ! 75 \<le> maxExpArray ! (k + 1)"
        using inner(1) by (intro maxExpArray_antimono) simp_all
      with inner(4) lbe_le show False by linarith
    qed
  next
    case none
    with pos show ?thesis by simp
  qed
qed

lemma power_fn_lower:
  assumes pw: "power_fn baseN baseD expN expD = Inr (result, precision)"
    and "0 < baseD" "baseD \<le> baseN"
    and "0 < expN" "expN \<le> 1000000" "0 < expD" "expD \<le> 1000000"
    and high: "75 \<le> precision"
  shows "2 ^ precision
           * exp (real_of_int expN / real_of_int expD
                    * ln (real_of_int baseN / real_of_int baseD))
           * (1 - 1 / 2 ^ 30)
         < real_of_int result"
proof -
  from pw obtain l where l: "ln_fn baseN baseD = Inr l"
    by (auto simp: power_fn_def split: sum.splits)
  define lbe where "lbe = l * expN div expD"
  define y where "y = lbe div 2 ^ (MAX_PRECISION - precision)"
  have pos: "findPositionInMaxExpArray lbe = Inr precision"
    and res: "result = fixedExp y precision"
    using pw assms(6) l
    by (auto simp: power_fn_def Let_def lbe_def y_def split: sum.splits)
  have p: "precision \<le> 127" "lbe \<le> maxExpArray ! precision"
    using findPosition_range[OF pos] by simp_all
  define q where "q = real_of_int baseN / real_of_int baseD"
  define e where "e = real_of_int expN / real_of_int expD"
  define E where "E = e * ln q"
  define V where "V = exp E"
  define W :: real where "W = 2 ^ precision"
  define Q :: real where "Q = 2 ^ (127 - precision)"
  define F :: real where "F = 2 ^ 127"
  define z where "z = real_of_int y / W"
  have W: "0 < W" by (simp add: W_def)
  have Q: "0 < Q" by (simp add: Q_def)
  have F: "0 < F" by (simp add: F_def)
  have FWQ: "F = W * Q"
    unfolding F_def W_def Q_def using p by (simp only: power_add [symmetric]) simp
  have q: "1 \<le> q" using assms by (simp add: q_def)
  have e: "0 < e" "e \<le> 1000000"
  proof -
    show "0 < e" using assms by (simp add: e_def)
    have "real_of_int expN \<le> 1000000 * 1" using assms by simp
    also have "\<dots> \<le> 1000000 * real_of_int expD"
      using assms by (intro mult_left_mono) simp_all
    finally show "e \<le> 1000000" using assms by (simp add: e_def field_simps)
  qed
  have E: "0 \<le> E" using q e by (simp add: E_def)
  have V: "1 \<le> V" using E by (simp add: V_def)
  \<comment> \<open>the exponent that reaches fixedExp\<close>
  have l_nonneg: "0 \<le> l" using ln_fn_nonneg[OF l] .
  have l_le: "real_of_int l \<le> ln q * F"
    unfolding q_def F_def using l assms by (intro ln_fn_upper) simp_all
  have l_ge: "ln q * F \<le> real_of_int l + 4134"
    unfolding q_def F_def using l assms by (intro ln_fn_lower) simp_all
  have "0 \<le> l * expN" using l_nonneg assms by simp
  then have lbe_nonneg: "0 \<le> lbe"
    using assms by (simp add: lbe_def pos_imp_zdiv_nonneg_iff)
  then have y_nonneg: "0 \<le> y" by (simp add: y_def pos_imp_zdiv_nonneg_iff)
  have "real_of_int (l * expN) / real_of_int expD - real_of_int (l * expN div expD) \<le> 1"
    by (rule real_of_int_div3)
  then have "real_of_int l * e - 1 \<le> real_of_int lbe"
    by (simp add: lbe_def e_def)
  moreover have "(ln q * F - 4134) * e \<le> real_of_int l * e"
    using l_ge e by (intro mult_right_mono) simp_all
  moreover have "4134 * e \<le> 4134 * 1000000" using e by simp
  ultimately have lbe_ge: "E * F - 4134000001 \<le> real_of_int lbe"
    by (simp add: E_def algebra_simps)
  have "real_of_int lbe / real_of_int (2 ^ (127 - precision))
          - real_of_int (lbe div 2 ^ (127 - precision)) \<le> 1"
    by (rule real_of_int_div3)
  then have y_ge: "real_of_int lbe / Q - 1 \<le> real_of_int y"
    by (simp add: y_def MAX_PRECISION_def Q_def)
  have "real_of_int y \<le> real_of_int lbe / real_of_int (2 ^ (127 - precision))"
    unfolding y_def MAX_PRECISION_def by (rule real_of_int_div4)
  then have y_le: "real_of_int y \<le> real_of_int lbe / Q" by (simp add: Q_def)
  
  have "maxExpArray ! precision \<le> maxExpArray ! 75"
    using high p by (intro maxExpArray_antimono) simp_all
  with p have "real_of_int lbe \<le> real_of_int (maxExpArray ! 75)"
    by (simp only: of_int_le_iff)
  also have "\<dots> \<le> 297 / 32 * F" unfolding F_def by (rule maxExpArray_75(1))
  finally have lbe_le: "real_of_int lbe \<le> 297 / 32 * F" .
  have "z \<le> (real_of_int lbe / Q) / W"
    unfolding z_def using y_le W by (intro divide_right_mono) simp_all
  also have "\<dots> = real_of_int lbe / F" by (simp add: FWQ)
  also have "\<dots> \<le> 297 / 32" using lbe_le F by (simp add: field_simps)
  finally have z_le: "z \<le> 297 / 32" .
  have z_nonneg: "0 \<le> z" using y_nonneg W by (simp add: z_def)
  \<comment> \<open>and at least the real exponent less \<open>2^-74\<close>\<close>
  define eta :: real where "eta = 1 / 2 ^ 74"
  have "(real_of_int lbe / Q - 1) / W \<le> z"
    unfolding z_def using y_ge W by (intro divide_right_mono) simp_all
  moreover have "(real_of_int lbe / Q - 1) / W = real_of_int lbe / F - 1 / W"
    by (simp add: FWQ diff_divide_distrib)
  moreover have "(E * F - 4134000001) / F \<le> real_of_int lbe / F"
    using lbe_ge F by (intro divide_right_mono) simp_all
  moreover have "(E * F - 4134000001) / F = E - 4134000001 / F"
    using F by (simp add: diff_divide_distrib)
  moreover have "4134000001 / F \<le> 1 / 2 ^ 75" by (simp add: F_def)
  moreover have "1 / W \<le> 1 / 2 ^ 75"
  proof -
    have "(2::real) ^ 75 \<le> 2 ^ precision" using high by (intro power_increasing) simp_all
    then show ?thesis unfolding W_def by (intro divide_left_mono) simp_all
  qed
  moreover have "(1::real) / 2 ^ 75 + 1 / 2 ^ 75 = eta" by (simp add: eta_def)
  ultimately have z_ge: "E - eta \<le> z" by linarith
  \<comment> \<open>the series\<close>
  have "1 + (- eta) \<le> exp (- eta)" by (rule exp_ge_add_one_self)
  then have "V * (1 - eta) \<le> V * exp (- eta)"
    using V by (intro mult_left_mono) simp_all
  also have "\<dots> = exp (E - eta)" by (simp add: V_def exp_diff exp_minus field_simps)
  also have "\<dots> \<le> exp z" using z_ge by simp
  finally have expz: "V * (1 - eta) \<le> exp z" .
  define S where "S = (\<Sum>m<Suc (Suc (length fixedExp_coefficients)). z ^ m / fact m)"
  define d :: real where "d = 1 / 2 ^ 31"
  have d: "0 \<le> 1 - d" by (simp add: d_def)
  have ser: "exp z * (1 - d) \<le> S"
    unfolding S_def d_def using z_nonneg z_le by (rule exp_series_loss)
  have "(V * (1 - eta)) * (1 - d) \<le> exp z * (1 - d)"
    using expz d by (intro mult_right_mono)
  with ser have S_ge: "V * ((1 - eta) * (1 - d)) \<le> S" by (simp add: mult.assoc)
  \<comment> \<open>the rounding\<close>
  have z10: "real_of_int y / 2 ^ precision \<le> 10"
    using z_le unfolding z_def W_def by linarith
  have "W * S - exp 10 - 1 \<le> real_of_int (fixedExp y precision)"
    unfolding S_def z_def W_def
    using y_nonneg z10 by (intro fixedExp_lower) simp_all
  with exp_10_le have r: "W * S - 59050 \<le> real_of_int result"
    unfolding res by linarith
  have "W * (V * ((1 - eta) * (1 - d))) \<le> W * S"
    using S_ge W by (intro mult_left_mono) simp_all
  with r have r2: "W * V * ((1 - eta) * (1 - d)) - 59050 \<le> real_of_int result"
    by (simp add: mult.assoc)
  have WV: "2 ^ 75 \<le> W * V"
  proof -
    have "(2::real) ^ 75 \<le> 2 ^ precision" using high by (intro power_increasing) simp_all
    then have "2 ^ 75 * 1 \<le> W * V" unfolding W_def using V by (intro mult_mono) simp_all
    then show ?thesis by simp
  qed
  have "(1 - eta) * (1 - d) - 59050 / 2 ^ 75 > 1 - 1 / 2 ^ 30"
    by (simp add: eta_def d_def)
  then have "W * V * (1 - 1 / 2 ^ 30) < W * V * ((1 - eta) * (1 - d) - 59050 / 2 ^ 75)"
    using WV by (intro mult_strict_left_mono) simp_all
  also have "\<dots> = W * V * ((1 - eta) * (1 - d)) - (W * V) * (59050 / 2 ^ 75)"
    by (simp only: right_diff_distrib)
  also have "\<dots> \<le> W * V * ((1 - eta) * (1 - d)) - 59050"
  proof -
    have "2 ^ 75 * (59050 / 2 ^ 75) \<le> (W * V) * (59050 / 2 ^ 75)"
      using WV by (intro mult_right_mono) simp_all
    then show ?thesis by simp
  qed
  also note r2
  finally show ?thesis
    by (simp only: W_def V_def E_def e_def q_def)
qed

section \<open>The accuracy of \<open>power\<close>\<close>

text \<open>
  C3, as the code has it. Whenever \<open>power(baseN, baseD, expN, expD)\<close> succeeds on inputs
  of the valid domain (\<open>1 \<le> baseD \<le> baseN \<le> MAX_NUM\<close>, \<open>expN\<close> and \<open>expD\<close> in
  \<open>(0, 1000000]\<close>), the precision it returns is in \<open>[32, 127]\<close> and its result lies between
  \<open>2^precision\<close> and \<open>(baseN / baseD)^(expN / expD) * 2^precision\<close>: an approximation of the
  real power from below. Whenever the returned precision is at least 75, the relative
  error of the result from \<open>(baseN / baseD)^(expN / expD) * 2^precision\<close> is below \<open>2^-30\<close>;
  and the precision is at least 75 whenever the real exponent
  \<open>ln(baseN / baseD) * expN / expD\<close> is at most 9.26, that is whenever the real power is at
  most \<open>exp 9.26\<close>, about 10500. At the low precisions, which larger exponents select,
  the bound \<open>2^-30\<close> does not hold.
\<close>

theorem power_fn_accuracy:
  assumes "power_fn baseN baseD expN expD = Inr (result, precision)"
    and "1 \<le> baseD" "baseD \<le> baseN" "baseN \<le> MAX_NUM"
    and "0 < expN" "expN \<le> 1000000" "0 < expD" "expD \<le> 1000000"
  shows "32 \<le> precision \<and> precision \<le> 127 \<and> 2 ^ precision \<le> result
         \<and> real_of_int result
             \<le> (real_of_int baseN / real_of_int baseD) powr (real_of_int expN / real_of_int expD)
                 * 2 ^ precision
         \<and> (real_of_int expN / real_of_int expD * ln (real_of_int baseN / real_of_int baseD)
               \<le> 926 / 100 \<longrightarrow> 75 \<le> precision)
         \<and> (75 \<le> precision \<longrightarrow>
              \<bar>real_of_int result
                 - (real_of_int baseN / real_of_int baseD)
                     powr (real_of_int expN / real_of_int expD) * 2 ^ precision\<bar>
                < (real_of_int baseN / real_of_int baseD)
                     powr (real_of_int expN / real_of_int expD) * 2 ^ precision / 2 ^ 30)"
proof -
  define V where "V = (real_of_int baseN / real_of_int baseD)
                        powr (real_of_int expN / real_of_int expD)"
  define W :: real where "W = 2 ^ precision"
  have b: "baseN \<noteq> 0" "baseD \<noteq> 0" using assms by simp_all
  have V: "V = exp (real_of_int expN / real_of_int expD
                     * ln (real_of_int baseN / real_of_int baseD))"
    using b by (simp add: V_def powr_def)
  have range: "32 \<le> precision" "precision \<le> 127" "2 ^ precision \<le> result"
    using power_fn_result[OF assms(1)] assms by simp_all
  have upper: "real_of_int result \<le> V * W"
    unfolding V_def W_def using assms by (intro power_fn_upper_powr) simp_all
  have high: "75 \<le> precision"
    if "real_of_int expN / real_of_int expD * ln (real_of_int baseN / real_of_int baseD)
          \<le> 926 / 100"
    using assms(1) _ _ _ _ that by (rule power_fn_precision_75) (use assms in simp_all)
  have close: "\<bar>real_of_int result - V * W\<bar> < V * W / 2 ^ 30" if "75 \<le> precision"
  proof -
    have "W * V * (1 - 1 / 2 ^ 30) < real_of_int result"
      unfolding V W_def using assms that by (intro power_fn_lower) simp_all
    then have "V * W - V * W / 2 ^ 30 < real_of_int result"
      by (simp add: algebra_simps)
    with upper show ?thesis by linarith
  qed
  show ?thesis
    using range upper high close unfolding V_def W_def by blast
qed

lemma power_fn_example_127:
  "power_fn 2000 1000 500000 1000000 = Inr (240615969168004511545033772477625056910, 127)"
  by code_simp

theorem power_fn_accuracy_witness:
  "power_fn 2000 1000 500000 1000000 = Inr (240615969168004511545033772477625056910, 127)
   \<and> (1::int) \<le> 1000 \<and> (1000::int) \<le> 2000 \<and> 2000 \<le> MAX_NUM
   \<and> (0::int) < 500000 \<and> (500000::int) \<le> 1000000 \<and> (0::int) < 1000000
   \<and> (32::nat) \<le> 127 \<and> (2::int) ^ 127 \<le> 240615969168004511545033772477625056910
   \<and> real_of_int 240615969168004511545033772477625056910
        \<le> (real_of_int 2000 / real_of_int 1000) powr (real_of_int 500000 / real_of_int 1000000)
            * 2 ^ 127
   \<and> real_of_int 500000 / real_of_int 1000000 * ln (real_of_int 2000 / real_of_int 1000)
        \<le> 926 / 100
   \<and> (75::nat) \<le> 127
   \<and> \<bar>real_of_int 240615969168004511545033772477625056910
        - (real_of_int 2000 / real_of_int 1000) powr (real_of_int 500000 / real_of_int 1000000)
            * 2 ^ 127\<bar>
        < (real_of_int 2000 / real_of_int 1000) powr (real_of_int 500000 / real_of_int 1000000)
            * 2 ^ 127 / 2 ^ 30"
proof -
  have M: "2000 \<le> MAX_NUM" by (simp add: MAX_NUM_def)
  have "ln (2::real) < 1" by (rule ln_2_less_1)
  then have small: "real_of_int 500000 / real_of_int 1000000
      * ln (real_of_int 2000 / real_of_int 1000) \<le> 926 / 100"
    by simp
  have t: "32 \<le> (127::nat) \<and> (127::nat) \<le> 127
         \<and> 2 ^ 127 \<le> (240615969168004511545033772477625056910::int)
         \<and> real_of_int 240615969168004511545033772477625056910
             \<le> (real_of_int 2000 / real_of_int 1000) powr (real_of_int 500000 / real_of_int 1000000)
                 * 2 ^ 127
         \<and> (real_of_int 500000 / real_of_int 1000000 * ln (real_of_int 2000 / real_of_int 1000)
               \<le> 926 / 100 \<longrightarrow> 75 \<le> (127::nat))
         \<and> (75 \<le> (127::nat) \<longrightarrow>
              \<bar>real_of_int 240615969168004511545033772477625056910
                 - (real_of_int 2000 / real_of_int 1000)
                     powr (real_of_int 500000 / real_of_int 1000000) * 2 ^ 127\<bar>
                < (real_of_int 2000 / real_of_int 1000)
                     powr (real_of_int 500000 / real_of_int 1000000) * 2 ^ 127 / 2 ^ 30)"
    by (rule power_fn_accuracy[OF power_fn_example_127]) (simp_all add: M)
  have n: "(75::nat) \<le> 127" "(32::nat) \<le> 127" by simp_all
  have h: "(1::int) \<le> 1000" "(1000::int) \<le> 2000" "(0::int) < 500000"
    "(500000::int) \<le> 1000000" "(0::int) < 1000000" by simp_all
  from t n h M small power_fn_example_127 show ?thesis by blast
qed

text \<open>
  The relative error is not below \<open>2^-30\<close> everywhere: for the square root of \<open>2^128\<close>,
  which is \<open>2^64\<close>, \<open>power\<close> selects the precision 37 and returns less than a twentieth
  of \<open>2^64 * 2^37\<close>. The series of \<open>fixedExp\<close> is too short for an exponent of about 44.
\<close>

lemma power_fn_example_37:
  "power_fn (2 ^ 128) 1 500000 1000000 = Inr (118109867418571901842577461372, 37)"
  by code_simp

lemma sqrt_2_128: "(real_of_int (2 ^ 128) / real_of_int 1) powr (real_of_int 500000 / real_of_int 1000000) = 2 ^ 64"
proof -
  have "(2 ^ 128 :: real) powr (1 / 2) = sqrt (2 ^ 128)"
    by (rule powr_half_sqrt) simp
  also have "\<dots> = 2 ^ 64"
    by (rule real_sqrt_unique) simp_all
  finally show ?thesis by simp
qed

theorem power_fn_relative_error_counterexample:
  "(1::int) \<le> 1 \<and> (1::int) \<le> 2 ^ 128 \<and> 2 ^ 128 \<le> MAX_NUM
   \<and> power_fn (2 ^ 128) 1 500000 1000000 = Inr (118109867418571901842577461372, 37)
   \<and> \<not> \<bar>real_of_int 118109867418571901842577461372
          - (real_of_int (2 ^ 128) / real_of_int 1)
              powr (real_of_int 500000 / real_of_int 1000000) * 2 ^ 37\<bar>
        < (real_of_int (2 ^ 128) / real_of_int 1)
              powr (real_of_int 500000 / real_of_int 1000000) * 2 ^ 37 / 2 ^ 30"
  unfolding sqrt_2_128 using power_fn_example_37 by (simp add: MAX_NUM_def)

section \<open>Monotonicity in the amount\<close>

subsection \<open>The logarithm is monotone in the ratio\<close>

lemma ln_for_mono:
  assumes "0 \<le> x" "x \<le> y"
  shows "ln_for k x res \<le> ln_for k y res"
  using assms
proof (induction k arbitrary: x y res)
  case 0
  then show ?case by simp
next
  case (Suc k)
  define x' where "x' = x * x div FIXED_1"
  define y' where "y' = y * y div FIXED_1"
  have "x * x \<le> y * y" using Suc.prems by (intro mult_mono) simp_all
  then have le: "x' \<le> y'"
    unfolding x'_def y'_def FIXED_1_eq by (intro zdiv_mono1) simp_all
  have x'_nonneg: "0 \<le> x'"
    using Suc.prems by (simp add: x'_def FIXED_1_eq pos_imp_zdiv_nonneg_iff)
  show ?case
  proof (cases "x' \<ge> FIXED_2")
    case True
    with le have y2: "y' \<ge> FIXED_2" by simp
    have "0 \<le> x' div 2" using x'_nonneg by simp
    moreover have "x' div 2 \<le> y' div 2" using le by (intro zdiv_mono1) simp_all
    ultimately have "ln_for k (x' div 2) (res + ONE * 2 ^ k)
        \<le> ln_for k (y' div 2) (res + ONE * 2 ^ k)"
      by (rule Suc.IH)
    then show ?thesis using True y2 by (simp add: Let_def x'_def y'_def)
  next
    case False
    show ?thesis
    proof (cases "y' \<ge> FIXED_2")
      case True
      have "ln_for k x' res \<le> res + 2 ^ k - 1" by (rule ln_for_le)
      also have "\<dots> \<le> res + ONE * 2 ^ k" by (simp add: ONE_def)
      also have "\<dots> \<le> ln_for k (y' div 2) (res + ONE * 2 ^ k)" by (rule ln_for_ge)
      finally show ?thesis using False True by (simp add: Let_def x'_def y'_def)
    next
      case y: False
      have "ln_for k x' res \<le> ln_for k y' res"
        using x'_nonneg le by (rule Suc.IH)
      then show ?thesis using False y by (simp add: Let_def x'_def y'_def)
    qed
  qed
qed

text \<open>
  The accumulator of \<open>ln\<close> before the rescaling, as a function of the fixed-point ratio
  \<open>x0\<close>; it is what \<open>ln_fn\<close> computes, and it is monotone.
\<close>

lemma ln_fn_accumulator_mono:
  fixes x0 y0 :: int
  defines "acc \<equiv> (\<lambda>x0.
     (let (x, res) =
            (if x0 \<ge> FIXED_2 then
               (let count = floorLog2 (x0 div FIXED_1)
                in (x0 div 2 ^ count, int count * FIXED_1))
             else (x0, 0))
      in if x > FIXED_1 then ln_for MAX_PRECISION x res else res))"
  assumes le: "x0 \<le> y0" and bound: "y0 div FIXED_1 < 2 ^ 256"
  shows "acc x0 \<le> acc y0"
proof -
  define cx where "cx = floorLog2 (x0 div FIXED_1)"
  define cy where "cy = floorLog2 (y0 div FIXED_1)"
  have acc_small: "acc z = (if z > FIXED_1 then ln_for MAX_PRECISION z 0 else 0)"
    if "\<not> z \<ge> FIXED_2" for z
    using that by (simp add: acc_def)
  have acc_big: "acc z = (if z div 2 ^ floorLog2 (z div FIXED_1) > FIXED_1
        then ln_for MAX_PRECISION (z div 2 ^ floorLog2 (z div FIXED_1))
               (int (floorLog2 (z div FIXED_1)) * FIXED_1)
        else int (floorLog2 (z div FIXED_1)) * FIXED_1)"
    if "z \<ge> FIXED_2" for z
    using that by (simp add: acc_def Let_def)
  have acc_ge: "int (floorLog2 (z div FIXED_1)) * FIXED_1 \<le> acc z" if "z \<ge> FIXED_2" for z
    unfolding acc_big[OF that] by (simp add: ln_for_ge)
  have acc_lt: "acc z < (int (floorLog2 (z div FIXED_1)) + 1) * FIXED_1" if "z \<ge> FIXED_2" for z
  proof -
    define b where "b = int (floorLog2 (z div FIXED_1)) * FIXED_1"
    define w where "w = z div 2 ^ floorLog2 (z div FIXED_1)"
    have "ln_for MAX_PRECISION w b \<le> b + 2 ^ 127 - 1"
      using ln_for_le[of 127 w b] by (simp add: MAX_PRECISION_def)
    then have "ln_for MAX_PRECISION w b < b + FIXED_1" by (simp add: FIXED_1_eq)
    moreover have "b < b + FIXED_1" by (simp add: FIXED_1_eq)
    moreover have "acc z = (if w > FIXED_1 then ln_for MAX_PRECISION w b else b)"
      unfolding acc_big[OF that] b_def w_def ..
    ultimately have "acc z < b + FIXED_1" by simp
    then show ?thesis by (simp add: b_def algebra_simps)
  qed
  show ?thesis
  proof (cases "y0 \<ge> FIXED_2")
    case yF: False
    with le have xF: "\<not> x0 \<ge> FIXED_2" by simp
    show ?thesis
    proof (cases "x0 > FIXED_1")
      case True
      then have "0 \<le> x0" by (simp add: FIXED_1_eq)
      from ln_for_mono[OF this le] True le show ?thesis
        unfolding acc_small[OF xF] acc_small[OF yF] by simp
    next
      case False
      then show ?thesis
        unfolding acc_small[OF xF] acc_small[OF yF] using ln_for_ge[of 0] by simp
    qed
  next
    case yT: True
    have my: "1 \<le> y0 div FIXED_1"
    proof -
      have "2 ^ 128 div 2 ^ 127 \<le> y0 div (2 ^ 127 :: int)"
        using yT unfolding FIXED_2_eq by (intro zdiv_mono1) simp_all
      then show ?thesis by (simp add: FIXED_1_eq)
    qed
    have my2: "2 \<le> y0 div FIXED_1"
    proof -
      have "2 ^ 128 div 2 ^ 127 \<le> y0 div (2 ^ 127 :: int)"
        using yT unfolding FIXED_2_eq by (intro zdiv_mono1) simp_all
      then show ?thesis by (simp add: FIXED_1_eq)
    qed
    have cy_ge1: "1 \<le> cy"
    proof (rule ccontr)
      assume "\<not> 1 \<le> cy"
      then have "cy = 0" by simp
      with floorLog2_exact(2)[OF my bound] have "y0 div FIXED_1 < 2" by (simp add: cy_def)
      with my2 show False by simp
    qed
    show ?thesis
    proof (cases "x0 \<ge> FIXED_2")
      case xF: False
      have "acc x0 \<le> 0 + 2 ^ 127 - 1"
        unfolding acc_small[OF xF] using ln_for_le[of 127 x0 0] by (simp add: MAX_PRECISION_def)
      also have "\<dots> < 1 * FIXED_1" by (simp add: FIXED_1_eq)
      also have "\<dots> \<le> int cy * FIXED_1"
        using cy_ge1 by (intro mult_right_mono) (simp_all add: FIXED_1_eq)
      also have "\<dots> \<le> acc y0" unfolding cy_def by (rule acc_ge[OF yT])
      finally show ?thesis by simp
    next
      case xT: True
      have mx: "1 \<le> x0 div FIXED_1"
      proof -
        have "2 ^ 128 div 2 ^ 127 \<le> x0 div (2 ^ 127 :: int)"
          using xT unfolding FIXED_2_eq by (intro zdiv_mono1) simp_all
        then show ?thesis by (simp add: FIXED_1_eq)
      qed
      have mle: "x0 div FIXED_1 \<le> y0 div FIXED_1"
        using le unfolding FIXED_1_eq by (intro zdiv_mono1) simp_all
      with bound have boundx: "x0 div FIXED_1 < 2 ^ 256" by simp
      have "(2::int) ^ cx \<le> x0 div FIXED_1"
        unfolding cx_def by (rule floorLog2_exact(1)[OF mx boundx])
      also note mle
      also have "y0 div FIXED_1 < 2 ^ Suc cy"
        unfolding cy_def by (rule floorLog2_exact(2)[OF my bound])
      finally have "(2::int) ^ cx < 2 ^ Suc cy" .
      then have "cx < Suc cy" by (rule power_less_imp_less_exp[rotated]) simp
      then consider "cx < cy" | "cx = cy" by linarith
      then show ?thesis
      proof cases
        case 1
        have "acc x0 < (int cx + 1) * FIXED_1" unfolding cx_def by (rule acc_lt[OF xT])
        also have "\<dots> \<le> int cy * FIXED_1"
          using 1 by (intro mult_right_mono) (simp_all add: FIXED_1_eq)
        also have "\<dots> \<le> acc y0" unfolding cy_def by (rule acc_ge[OF yT])
        finally show ?thesis by simp
      next
        case 2
        define x where "x = x0 div 2 ^ cx"
        define y where "y = y0 div 2 ^ cx"
        have xy: "x \<le> y" unfolding x_def y_def using le by (intro zdiv_mono1) simp_all
        have x_nonneg: "0 \<le> x"
          using xT by (simp add: x_def FIXED_2_eq pos_imp_zdiv_nonneg_iff)
        have ax: "acc x0 = (if x > FIXED_1 then ln_for MAX_PRECISION x (int cx * FIXED_1)
                            else int cx * FIXED_1)"
          unfolding acc_big[OF xT] x_def cx_def by simp
        have ay: "acc y0 = (if y > FIXED_1 then ln_for MAX_PRECISION y (int cx * FIXED_1)
                            else int cx * FIXED_1)"
        proof -
          have "floorLog2 (y0 div FIXED_1) = cx" using 2 by (simp add: cy_def)
          then show ?thesis unfolding acc_big[OF yT] y_def by simp
        qed
        show ?thesis
        proof (cases "x > FIXED_1")
          case True
          with xy have "y > FIXED_1" by simp
          with True ln_for_mono[OF x_nonneg xy] show ?thesis by (simp add: ax ay)
        next
          case False
          then show ?thesis by (simp add: ax ay ln_for_ge)
        qed
      qed
    qed
  qed
qed


lemma ln_fn_mono:
  assumes l: "ln_fn n d = Inr l" and l': "ln_fn n' d' = Inr l'"
    and le: "n * FIXED_1 div d \<le> n' * FIXED_1 div d'"
    and bound: "n' * FIXED_1 div d' div FIXED_1 < 2 ^ 256"
  shows "l \<le> l'"
proof -
  define acc where "acc = (\<lambda>x0.
     (let (x, res) =
            (if x0 \<ge> FIXED_2 then
               (let count = floorLog2 (x0 div FIXED_1)
                in (x0 div 2 ^ count, int count * FIXED_1))
             else (x0, 0))
      in if x > FIXED_1 then ln_for MAX_PRECISION x res else res))"
  have eq: "l = acc (n * FIXED_1 div d) * LN2_MANTISSA div 2 ^ LN2_EXPONENT"
    using l by (auto simp: ln_fn_def acc_def Let_def split: if_splits prod.splits)
  have eq': "l' = acc (n' * FIXED_1 div d') * LN2_MANTISSA div 2 ^ LN2_EXPONENT"
    using l' by (auto simp: ln_fn_def acc_def Let_def split: if_splits prod.splits)
  have "acc (n * FIXED_1 div d) \<le> acc (n' * FIXED_1 div d')"
    unfolding acc_def by (rule ln_fn_accumulator_mono[OF le bound])
  then have "acc (n * FIXED_1 div d) * LN2_MANTISSA \<le> acc (n' * FIXED_1 div d') * LN2_MANTISSA"
    by (intro mult_right_mono) (simp_all add: LN2_MANTISSA_def)
  then show ?thesis unfolding eq eq' by (intro zdiv_mono1) simp_all
qed

subsection \<open>The exponential is monotone at a fixed precision\<close>

lemma fixedExp_terms_mono:
  assumes "0 \<le> x" "x \<le> y" "0 \<le> xi" "xi \<le> yi" "res \<le> res'"
    and "list_all (\<lambda>c. 0 \<le> c) cs"
  shows "fixedExp_terms cs x p xi res \<le> fixedExp_terms cs y p yi res'"
  using assms(3-)
proof (induction cs arbitrary: xi yi res res')
  case Nil
  then show ?case by simp
next
  case (Cons c cs)
  define xi' where "xi' = (xi * x) div 2 ^ p"
  define yi' where "yi' = (yi * y) div 2 ^ p"
  have c: "0 \<le> c" and cs: "list_all (\<lambda>c. 0 \<le> c) cs" using Cons.prems by simp_all
  have "xi * x \<le> yi * y" using assms(1,2) Cons.prems by (intro mult_mono) simp_all
  then have le: "xi' \<le> yi'" unfolding xi'_def yi'_def by (intro zdiv_mono1) simp_all
  have nonneg: "0 \<le> xi'"
    using assms(1) Cons.prems by (simp add: xi'_def pos_imp_zdiv_nonneg_iff)
  have "xi' * c \<le> yi' * c" using le c by (intro mult_right_mono)
  then have "res + xi' * c \<le> res' + yi' * c" using Cons.prems by simp
  from Cons.IH[OF nonneg le this cs] show ?case
    by (simp add: Let_def xi'_def yi'_def)
qed

lemma fixedExp_mono:
  assumes "0 \<le> x" "x \<le> y"
  shows "fixedExp x p \<le> fixedExp y p"
proof -
  have "fixedExp_terms fixedExp_coefficients x p x 0
        \<le> fixedExp_terms fixedExp_coefficients y p y 0"
    using assms fixedExp_coefficients_nonneg by (intro fixedExp_terms_mono) simp_all
  then have "fixedExp_terms fixedExp_coefficients x p x 0 div 0x688589cc0e9505e2f2fee5580000000
        \<le> fixedExp_terms fixedExp_coefficients y p y 0 div 0x688589cc0e9505e2f2fee5580000000"
    by (intro zdiv_mono1) simp_all
  with assms show ?thesis by (simp add: fixedExp_def)
qed

lemma power_fn_mono:
  assumes pw: "power_fn baseN baseD expN expD = Inr (R, p)"
    and pw': "power_fn baseN' baseD' expN expD = Inr (R', p)"
    and e: "0 \<le> expN" "0 < expD"
    and le: "baseN * FIXED_1 div baseD \<le> baseN' * FIXED_1 div baseD'"
    and bound: "baseN' * FIXED_1 div baseD' div FIXED_1 < 2 ^ 256"
  shows "R \<le> R'"
proof -
  from pw obtain l where l: "ln_fn baseN baseD = Inr l"
    by (auto simp: power_fn_def split: sum.splits)
  from pw' obtain l' where l': "ln_fn baseN' baseD' = Inr l'"
    by (auto simp: power_fn_def split: sum.splits)
  have R: "R = fixedExp (l * expN div expD div 2 ^ (MAX_PRECISION - p)) p"
    using pw l e by (auto simp: power_fn_def Let_def split: sum.splits)
  have R': "R' = fixedExp (l' * expN div expD div 2 ^ (MAX_PRECISION - p)) p"
    using pw' l' e by (auto simp: power_fn_def Let_def split: sum.splits)
  have ll: "l \<le> l'" by (rule ln_fn_mono[OF l l' le bound])
  have m: "l * expN \<le> l' * expN" using ll e by (intro mult_right_mono)
  have m2: "l * expN div expD \<le> l' * expN div expD"
    by (rule zdiv_mono1[OF m e(2)])
  have le2: "l * expN div expD div 2 ^ (MAX_PRECISION - p)
      \<le> l' * expN div expD div 2 ^ (MAX_PRECISION - p)"
    by (rule zdiv_mono1[OF m2]) simp
  have "0 \<le> l * expN" using ln_fn_nonneg[OF l] e by simp
  then have "0 \<le> l * expN div expD div 2 ^ (MAX_PRECISION - p)"
    using e by (simp add: pos_imp_zdiv_nonneg_iff)
  from fixedExp_mono[OF this le2] show ?thesis by (simp add: R R')
qed

subsection \<open>The returns are monotone where the precision does not change\<close>

lemma ratio_bound:
  assumes "0 \<le> n" "n \<le> MAX_NUM" "0 < d"
  shows "n * FIXED_1 div d div FIXED_1 < 2 ^ 256"
proof -
  have "0 \<le> n * FIXED_1" using assms by (simp add: FIXED_1_eq)
  from zdiv_mono2[OF this, of 1 d] assms have "n * FIXED_1 div d \<le> n * FIXED_1" by simp
  then have "n * FIXED_1 div d div FIXED_1 \<le> n * FIXED_1 div FIXED_1"
    by (intro zdiv_mono1) (simp_all add: FIXED_1_eq)
  also have "\<dots> = n" by (simp add: FIXED_1_eq)
  also have "\<dots> < 2 ^ 256" using assms by (simp add: MAX_NUM_def)
  finally show ?thesis .
qed

lemma purchase_linear_mono:
  assumes "s > 0" "r > 0" "d \<le> d'"
    and t: "calculatePurchaseReturn s r 1000000 d = Inr t"
    and t': "calculatePurchaseReturn s r 1000000 d' = Inr t'"
  shows "t \<le> t'"
proof -
  have "t = s * d div r"
    using t assms
    by (auto simp: calculatePurchaseReturn_def MAX_CRR_def safeMul_def split: if_splits)
  moreover have "t' = s * d' div r"
    using t' assms
    by (auto simp: calculatePurchaseReturn_def MAX_CRR_def safeMul_def split: if_splits)
  moreover have "s * d div r \<le> s * d' div r"
    using assms by (intro zdiv_mono1 mult_left_mono) simp_all
  ultimately show ?thesis by simp
qed

lemma sale_linear_mono:
  assumes "s > 0" "r > 0" "a \<le> a'"
    and v: "calculateSaleReturn s r 1000000 a = Inr v"
    and v': "calculateSaleReturn s r 1000000 a' = Inr v'"
  shows "v \<le> v'"
proof -
  have whole: "r * s div s = r" using assms by simp
  have "v = r * a div s"
    using v assms whole
    by (auto simp: calculateSaleReturn_def MAX_CRR_def safeMul_def split: if_splits)
  moreover have "v' = r * a' div s"
    using v' assms whole
    by (auto simp: calculateSaleReturn_def MAX_CRR_def safeMul_def split: if_splits)
  moreover have "r * a div s \<le> r * a' div s"
    using assms by (intro zdiv_mono1 mult_left_mono) simp_all
  ultimately show ?thesis by simp
qed

lemma sale_formula:
  fixes r R :: int
  assumes "0 < R"
  shows "(r * R - A) div R = r + (- A) div R"
proof -
  have "(- A + r * R) div R = r + (- A) div R"
    using assms by (subst div_mult_self1) simp_all
  then show ?thesis by (simp add: algebra_simps)
qed

lemma sale_formula_mono:
  fixes r R R' A :: int
  assumes "0 < R" "R \<le> R'" "0 < A"
  shows "(r * R - A) div R \<le> (r * R' - A) div R'"
proof -
  have "(- A) div R \<le> (- A) div R'"
    using assms by (intro zdiv_mono2_neg) simp_all
  then show ?thesis using assms by (simp add: sale_formula)
qed

lemma sale_formula_le:
  fixes r R A :: int
  assumes "0 < R" "0 \<le> A"
  shows "(r * R - A) div R \<le> r"
proof -
  have "(- A) div R \<le> 0"
    using zdiv_mono1[of "- A" 0 R] assms by simp
  then show ?thesis using assms by (simp add: sale_formula)
qed

lemma purchase_mono:
  assumes v: "s > 0" "r > 0" "0 < c" "c < 1000000"
    and d: "0 \<le> d" "d \<le> d'"
    and t: "calculatePurchaseReturn s r c d = Inr t"
    and t': "calculatePurchaseReturn s r c d' = Inr t'"
    and same: "0 < d \<Longrightarrow> \<exists>R R' p. power_fn (d + r) r c MAX_CRR = Inr (R, p)
                  \<and> power_fn (d' + r) r c MAX_CRR = Inr (R', p)"
  shows "t \<le> t'"
proof (cases "d' = 0")
  case True
  with d have "d = 0" by simp
  with True t t' show ?thesis by simp
next
  case d'0: False
  with d have d'pos: "0 < d'" by simp
  from v have c: "c \<noteq> 1000000" by simp
  from purchase_general_cases[OF t' c d'0] obtain R' p'
    where pw': "power_fn (d' + r) r c MAX_CRR = Inr (R', p')"
      and t'_eq: "t' = (s * R') div 2 ^ p' - s"
    by blast
  have R'_ge: "2 ^ p' \<le> R'"
    using power_fn_result(3)[OF pw'] v by (simp add: MAX_CRR_def)
  show ?thesis
  proof (cases "d = 0")
    case True
    with t v have "t = 0" by (simp add: calculatePurchaseReturn_def MAX_CRR_def)
    moreover have "0 \<le> t'"
      using le_shift_of_scaled[of s p' R'] R'_ge v by (simp add: t'_eq)
    ultimately show ?thesis by simp
  next
    case d0: False
    with d have dpos: "0 < d" by simp
    from purchase_general_cases[OF t c d0] obtain R p
      where pw: "power_fn (d + r) r c MAX_CRR = Inr (R, p)"
        and t_eq: "t = (s * R) div 2 ^ p - s"
      by blast
    from same[OF dpos] pw pw' have pp: "p' = p" by auto
    have le: "(d + r) * FIXED_1 div r \<le> (d' + r) * FIXED_1 div r"
      using d v by (intro zdiv_mono1 mult_right_mono) (simp_all add: FIXED_1_eq)
    have bound: "(d' + r) * FIXED_1 div r div FIXED_1 < 2 ^ 256"
      using power_fn_numerator[OF pw'] d'pos v by (intro ratio_bound) simp_all
    have "R \<le> R'"
      using pw pw' v le bound unfolding pp
      by (intro power_fn_mono[of "d + r" r c MAX_CRR R p "d' + r" r R']) (simp_all add: MAX_CRR_def)
    then have "s * R \<le> s * R'" using v by (intro mult_left_mono) simp_all
    then have "(s * R) div 2 ^ p \<le> (s * R') div 2 ^ p"
      by (intro zdiv_mono1) simp_all
    then show ?thesis by (simp add: t_eq t'_eq pp)
  qed
qed

lemma sale_mono:
  assumes v: "s > 0" "r > 0" "0 < c" "c < 1000000"
    and a: "0 \<le> a" "a \<le> a'"
    and w: "calculateSaleReturn s r c a = Inr w"
    and w': "calculateSaleReturn s r c a' = Inr w'"
    and same: "0 < a \<Longrightarrow> a' < s \<Longrightarrow> \<exists>R R' p. power_fn s (s - a) MAX_CRR c = Inr (R, p)
                  \<and> power_fn s (s - a') MAX_CRR c = Inr (R', p)"
  shows "w \<le> w'"
proof -
  from v have c: "c \<noteq> 1000000" by simp
  have a's: "a' \<le> s"
    using w' by (auto simp: calculateSaleReturn_def split: if_splits)
  have general: "\<exists>R p. power_fn s (s - b) MAX_CRR c = Inr (R, p) \<and> 2 ^ p \<le> R
        \<and> u = (r * R - r * 2 ^ p) div R"
    if "calculateSaleReturn s r c b = Inr u" "0 < b" "b < s" for b u
  proof -
    from sale_general_cases[OF that(1) c] that obtain R p
      where pw: "power_fn s (s - b) MAX_CRR c = Inr (R, p)"
        and u: "u = (r * R - r * 2 ^ p) div R"
      by (metis less_irrefl)
    have "2 ^ p \<le> R" using power_fn_result(3)[OF pw] v by (simp add: MAX_CRR_def)
    with pw u show ?thesis by blast
  qed
  have pos: "(0::int) < 2 ^ p" for p by simp
  have nonneg: "0 \<le> u" if sale_b: "calculateSaleReturn s r c b = Inr u" and b0: "0 \<le> b" for b u
  proof -
    have bs: "b \<le> s" using sale_b by (auto simp: calculateSaleReturn_def split: if_splits)
    consider "b = 0" | "b = s" | "0 < b" "b < s" using b0 bs by linarith
    then show ?thesis
    proof cases
      case 1
      with sale_b v show ?thesis by (simp add: calculateSaleReturn_def MAX_CRR_def)
    next
      case 2
      with sale_b v show ?thesis by (simp add: calculateSaleReturn_def MAX_CRR_def)
    next
      case 3
      from general[OF sale_b 3] obtain R p
        where R: "2 ^ p \<le> R" and u: "u = (r * R - r * 2 ^ p) div R" by blast
      have "r * 2 ^ p \<le> r * R" using R v by (intro mult_left_mono) simp_all
      moreover have "0 < R" using R pos[of p] by linarith
      ultimately show ?thesis unfolding u by (simp add: pos_imp_zdiv_nonneg_iff)
    qed
  qed
  consider "a = 0" | "0 < a" "a' = s" | "0 < a" "a' < s" using a a's by linarith
  then show ?thesis
  proof cases
    case 1
    with w v have "w = 0" by (simp add: calculateSaleReturn_def MAX_CRR_def)
    moreover have "0 \<le> w'" using nonneg[OF w'] a by simp
    ultimately show ?thesis by simp
  next
    case 2
    with w' v have w'_eq: "w' = r" by (simp add: calculateSaleReturn_def MAX_CRR_def)
    show ?thesis
    proof (cases "a = s")
      case True
      with w v w'_eq show ?thesis by (simp add: calculateSaleReturn_def MAX_CRR_def)
    next
      case False
      with a 2 have "a < s" by simp
      from general[OF w 2(1) this] obtain R p
        where R: "2 ^ p \<le> R" and w_eq: "w = (r * R - r * 2 ^ p) div R" by blast
      have "0 < R" using R pos[of p] by linarith
      then have "w \<le> r" unfolding w_eq using v by (intro sale_formula_le) simp_all
      then show ?thesis by (simp add: w'_eq)
    qed
  next
    case 3
    then have as: "a < s" and a'pos: "0 < a'" using a by simp_all
    from general[OF w 3(1) as] obtain R p
      where pw: "power_fn s (s - a) MAX_CRR c = Inr (R, p)" and R: "2 ^ p \<le> R"
        and w_eq: "w = (r * R - r * 2 ^ p) div R" by blast
    from general[OF w' a'pos 3(2)] obtain R' p'
      where pw': "power_fn s (s - a') MAX_CRR c = Inr (R', p')"
        and w'_eq: "w' = (r * R' - r * 2 ^ p') div R'" by blast
    from same[OF 3] pw pw' have pp: "p' = p" by auto
    have "0 \<le> s * FIXED_1" using v by (simp add: FIXED_1_eq)
    then have le: "s * FIXED_1 div (s - a) \<le> s * FIXED_1 div (s - a')"
      using a 3 by (intro zdiv_mono2) simp_all
    have bound: "s * FIXED_1 div (s - a') div FIXED_1 < 2 ^ 256"
      using power_fn_numerator[OF pw'] v 3 by (intro ratio_bound) simp_all
    have RR: "R \<le> R'"
      using pw pw' v le bound unfolding pp
      by (intro power_fn_mono[of s "s - a" MAX_CRR c R p s "s - a'" R']) (simp_all add: MAX_CRR_def)
    have "0 < R" using R pos[of p] by linarith
    moreover have "0 < r * 2 ^ p" using v by simp
    ultimately have "(r * R - r * 2 ^ p) div R \<le> (r * R' - r * 2 ^ p) div R'"
      using RR by (intro sale_formula_mono)
    then show ?thesis by (simp add: w_eq w'_eq pp)
  qed
qed

text \<open>
  C2, as the code has it. For fixed valid \<open>s\<close>, \<open>r\<close> and \<open>c\<close>, \<open>calculatePurchaseReturn\<close> and
  \<open>calculateSaleReturn\<close> are non-decreasing in their amount over all pairs of nonnegative
  amounts at which both calls succeed and \<open>power\<close>, where both calls reach it, selects the
  same precision. This covers the whole case \<open>c = 1000000\<close> and the shortcuts, which do
  not call \<open>power\<close>. Between two amounts at which the precision differs, the return can
  decrease.
\<close>

theorem returns_monotone_at_equal_precision:
  assumes "s > 0" "r > 0" "0 < c" "c \<le> 1000000"
  shows "(0 \<le> d \<and> d \<le> d'
          \<and> calculatePurchaseReturn s r c d = Inr t
          \<and> calculatePurchaseReturn s r c d' = Inr t'
          \<and> (c < 1000000 \<and> 0 < d \<longrightarrow>
                (\<exists>R R' p. power_fn (d + r) r c MAX_CRR = Inr (R, p)
                        \<and> power_fn (d' + r) r c MAX_CRR = Inr (R', p)))
          \<longrightarrow> t \<le> t')
       \<and> (0 \<le> a \<and> a \<le> a'
          \<and> calculateSaleReturn s r c a = Inr v
          \<and> calculateSaleReturn s r c a' = Inr v'
          \<and> (c < 1000000 \<and> 0 < a \<and> a' < s \<longrightarrow>
                (\<exists>R R' p. power_fn s (s - a) MAX_CRR c = Inr (R, p)
                        \<and> power_fn s (s - a') MAX_CRR c = Inr (R', p)))
          \<longrightarrow> v \<le> v')"
proof (cases "c = 1000000")
  case True
  with assms show ?thesis
    using purchase_linear_mono[of s r d d' t t'] sale_linear_mono[of s r a a' v v'] by simp
next
  case False
  with assms have c: "c < 1000000" by simp
  show ?thesis
    using purchase_mono[OF assms(1-3) c, of d d' t t'] sale_mono[OF assms(1-3) c, of a a' v v'] c
    by blast
qed

lemma purchase_example_next: "calculatePurchaseReturn 1000 1000 500000 1001 = Inr 414"
  by code_simp

lemma sale_example_next: "calculateSaleReturn 1000 1000 500000 415 = Inr 657"
  by code_simp

lemma power_fn_purchase_example_next:
  "power_fn (1001 + 1000) 1000 500000 MAX_CRR
     = Inr (240676115642926701196100498256123654064, 127)"
  by code_simp

lemma power_fn_sale_example_next:
  "power_fn 1000 (1000 - 415) MAX_CRR 500000
     = Inr (248580880211073462972733294931527658245, 126)"
  by code_simp

theorem returns_monotone_at_equal_precision_witness:
  "(1000::int) > 0 \<and> (0::int) < 500000 \<and> (500000::int) \<le> 1000000
   \<and> (0::int) \<le> 1000 \<and> (1000::int) \<le> 1001
   \<and> calculatePurchaseReturn 1000 1000 500000 1000 = Inr 414
   \<and> calculatePurchaseReturn 1000 1000 500000 1001 = Inr 414
   \<and> power_fn (1000 + 1000) 1000 500000 MAX_CRR
         = Inr (240615969168004511545033772477625056910, 127)
   \<and> power_fn (1001 + 1000) 1000 500000 MAX_CRR
         = Inr (240676115642926701196100498256123654064, 127)
   \<and> (414::int) \<le> 414
   \<and> (0::int) \<le> 414 \<and> (414::int) \<le> 415 \<and> (415::int) < 1000
   \<and> calculateSaleReturn 1000 1000 500000 414 = Inr 656
   \<and> calculateSaleReturn 1000 1000 500000 415 = Inr 657
   \<and> power_fn 1000 (1000 - 414) MAX_CRR 500000
         = Inr (247733205192356975229308587921647464862, 126)
   \<and> power_fn 1000 (1000 - 415) MAX_CRR 500000
         = Inr (248580880211073462972733294931527658245, 126)
   \<and> (656::int) \<le> 657"
  using returns_monotone_at_equal_precision[of 1000 1000 500000 1000 1001 414 414 414 415 656 657]
    purchase_example purchase_example_next sale_example sale_example_next
    power_fn_purchase_example power_fn_purchase_example_next
    power_fn_sale_example power_fn_sale_example_next
  by simp

text \<open>
  Between two neighbouring deposits \<open>power\<close> can drop to a lower precision, and the coarser
  result makes the return smaller for the larger deposit. Here the precision goes from
  121 to 120.
\<close>

lemma purchase_drop_lo:
  "calculatePurchaseReturn 11383706301699010719086021947681190630742 (2 ^ 125) 500000
     580167652941368328140398559502788730843
   = Inr 32172436664181112604225927803585140435622"
  by code_simp

lemma purchase_drop_hi:
  "calculatePurchaseReturn 11383706301699010719086021947681190630742 (2 ^ 125) 500000
     580167652941368328140398559502788730844
   = Inr 32172436664181112604225927803585140431340"
  by code_simp


theorem purchase_not_monotone_counterexample:
  "(580167652941368328140398559502788730843::int) \<le> 580167652941368328140398559502788730844
   \<and> calculatePurchaseReturn 11383706301699010719086021947681190630742 (2 ^ 125) 500000
         580167652941368328140398559502788730843
       = Inr 32172436664181112604225927803585140435622
   \<and> calculatePurchaseReturn 11383706301699010719086021947681190630742 (2 ^ 125) 500000
         580167652941368328140398559502788730844
       = Inr 32172436664181112604225927803585140431340
   \<and> \<not> (32172436664181112604225927803585140435622::int)
          \<le> 32172436664181112604225927803585140431340"
  using purchase_drop_lo purchase_drop_hi by simp

section \<open>Buying and selling back\<close>

subsection \<open>Bernoulli's inequality for a real exponent\<close>

lemma powr_deriv_shifted:
  assumes "-1 < (y::real)"
  shows "((\<lambda>y. (1 + y) powr a - a * y) has_real_derivative (a * (1 + y) powr (a - 1) - a)) (at y)"
  using assms by (auto intro!: derivative_eq_intros)

lemma bernoulli_powr:
  assumes "1 \<le> (a::real)" "-1 < x"
  shows "1 + a * x \<le> (1 + x) powr a"
proof -
  let ?f = "\<lambda>y::real. (1 + y) powr a - a * y"
  have f0: "?f 0 = 1" by simp
  have "?f 0 \<le> ?f x"
  proof (cases "0 \<le> x")
    case True
    show ?thesis
    proof (rule DERIV_nonneg_imp_nondecreasing[OF True])
      fix y :: real assume y: "0 \<le> y" "y \<le> x"
      have "1 \<le> (1 + y) powr (a - 1)"
        using y assms by (intro ge_one_powr_ge_zero) simp_all
      then have "0 \<le> a * (1 + y) powr (a - 1) - a"
        using assms by (simp add: algebra_simps)
      moreover have "(?f has_real_derivative (a * (1 + y) powr (a - 1) - a)) (at y)"
        using y by (intro powr_deriv_shifted) simp
      ultimately show "\<exists>z. (?f has_real_derivative z) (at y) \<and> 0 \<le> z" by blast
    qed
  next
    case False
    then have le: "x \<le> 0" by simp
    show ?thesis
    proof (rule DERIV_nonpos_imp_nonincreasing[OF le])
      fix y :: real assume y: "x \<le> y" "y \<le> 0"
      have y1: "-1 < y" using y assms by simp
      have "(1 + y) powr (a - 1) \<le> 1"
        using y y1 assms by (intro powr_le1) simp_all
      then have "a * (1 + y) powr (a - 1) \<le> a * 1"
        using assms by (intro mult_left_mono) simp_all
      then have "a * (1 + y) powr (a - 1) - a \<le> 0" by simp
      moreover have "(?f has_real_derivative (a * (1 + y) powr (a - 1) - a)) (at y)"
        using y1 by (rule powr_deriv_shifted)
      ultimately show "\<exists>z. (?f has_real_derivative z) (at y) \<and> z \<le> 0" by blast
    qed
  qed
  then show ?thesis by (simp add: f0)
qed

lemma powr_sum_ge_two:
  assumes "1 \<le> (a::real)" "0 \<le> w" "w < 1"
  shows "2 \<le> (1 - w) powr a + (1 + w) powr a"
proof -
  have "1 + a * (- w) \<le> (1 + (- w)) powr a"
    using assms by (intro bernoulli_powr) simp_all
  moreover have "1 + a * w \<le> (1 + w) powr a"
    using assms by (intro bernoulli_powr) simp_all
  ultimately show ?thesis by simp
qed

text \<open>
  The inequality behind the round trip: if the bought fraction \<open>w\<close> of the supply is at
  most \<open>(1 + u)^g - 1\<close> for the deposited fraction \<open>u\<close> of the reserve, and the sold
  fraction of the reserve is at most \<open>1 - (1 - w)^(1/g)\<close>, then no more than \<open>u\<close> comes back.
\<close>

lemma round_trip_real:
  fixes u w g :: real
  assumes "0 < g" "g \<le> 1" "0 \<le> u" "0 \<le> w" "w < 1"
    and "1 + w \<le> exp (g * ln (1 + u))"
  shows "1 - u \<le> exp (1 / g * ln (1 - w))"
proof -
  let ?a = "1 / g"
  have a: "1 \<le> ?a" using assms by simp
  have "ln (1 + w) \<le> g * ln (1 + u)"
  proof -
    have "ln (1 + w) \<le> ln (exp (g * ln (1 + u)))"
      using assms by (intro ln_mono) simp_all
    then show ?thesis by simp
  qed
  then have "?a * ln (1 + w) \<le> ?a * (g * ln (1 + u))"
    using a assms by (intro mult_left_mono) simp_all
  also have "\<dots> = ln (1 + u)" using assms by simp
  finally have "exp (?a * ln (1 + w)) \<le> exp (ln (1 + u))" by simp
  then have up: "(1 + w) powr ?a \<le> 1 + u"
    using assms by (simp add: powr_def)
  have "2 \<le> (1 - w) powr ?a + (1 + w) powr ?a"
    using a assms by (intro powr_sum_ge_two) simp_all
  with up have "1 - u \<le> (1 - w) powr ?a" by linarith
  then show ?thesis using assms by (simp add: powr_def)
qed

subsection \<open>The two directions in real numbers\<close>

lemma purchase_real_bound:
  assumes "s > 0" "r > 0" "0 < c" "c < 1000000" "0 \<le> d"
    and pw: "power_fn (d + r) r c MAX_CRR = Inr (R, p)"
    and t: "t = (s * R) div 2 ^ p - s"
  shows "1 + real_of_int t / real_of_int s
           \<le> exp (real_of_int c / 1000000 * ln (1 + real_of_int d / real_of_int r))"
proof -
  define E where "E = exp (real_of_int c / 1000000 * ln (1 + real_of_int d / real_of_int r))"
  have q: "real_of_int (d + r) / real_of_int r = 1 + real_of_int d / real_of_int r"
    using assms by (simp add: field_simps)
  have "real_of_int R \<le> 2 ^ p * exp (real_of_int c / real_of_int MAX_CRR
            * ln (real_of_int (d + r) / real_of_int r))"
    using assms by (intro power_fn_upper[OF pw]) (simp_all add: MAX_CRR_def)
  then have R: "real_of_int R \<le> 2 ^ p * E"
    unfolding E_def q by (simp add: MAX_CRR_def)
  have "real_of_int (t + s) \<le> real_of_int (s * R) / real_of_int (2 ^ p)"
    unfolding t using real_of_int_div4[of "s * R" "2 ^ p"] by simp
  also have "\<dots> = real_of_int s * (real_of_int R / 2 ^ p)" by simp
  also have "\<dots> \<le> real_of_int s * E"
    using R assms by (intro mult_left_mono) (simp_all add: field_simps)
  finally have "real_of_int t + real_of_int s \<le> real_of_int s * E" by simp
  then have "(real_of_int t + real_of_int s) / real_of_int s \<le> E"
    using assms by (simp add: field_simps)
  then show ?thesis
    using assms unfolding E_def by (simp add: field_simps)
qed

lemma sale_real_bound:
  assumes "s > 0" "r > 0" "0 < c" "c < 1000000" "0 < a" "a < s"
    and pw: "power_fn s (s - a) MAX_CRR c = Inr (R, p)"
    and v: "v = (r * R - r * 2 ^ p) div R"
  shows "real_of_int v
           \<le> real_of_int r
               * (1 - exp (1 / (real_of_int c / 1000000) * ln (1 - real_of_int a / real_of_int s)))"
proof -
  define L where "L = ln (real_of_int s / real_of_int (s - a))"
  define k where "k = 1 / (real_of_int c / 1000000)"
  define E where "E = exp (k * L)"
  have E_pos: "0 < E" by (simp add: E_def)
  have R_ge: "2 ^ p \<le> R"
    using power_fn_result(3)[OF pw] assms by (simp add: MAX_CRR_def)
  then have R_pos: "0 < real_of_int R"
    by (smt (verit) of_int_0_less_iff zero_less_power)
  have "real_of_int R \<le> 2 ^ p * exp (real_of_int MAX_CRR / real_of_int c * L)"
    unfolding L_def using assms by (intro power_fn_upper[OF pw]) (simp_all add: MAX_CRR_def)
  then have R_le: "real_of_int R \<le> 2 ^ p * E"
    by (simp add: E_def k_def MAX_CRR_def)
  have inv: "1 / E \<le> 2 ^ p / real_of_int R"
  proof -
    have "1 / E = 2 ^ p / (2 ^ p * E)" by simp
    also have "\<dots> \<le> 2 ^ p / real_of_int R"
      using R_le R_pos by (intro divide_left_mono) simp_all
    finally show ?thesis .
  qed
  have "real_of_int v \<le> real_of_int (r * R - r * 2 ^ p) / real_of_int R"
    unfolding v by (rule real_of_int_div4)
  also have "\<dots> = real_of_int r * (1 - 2 ^ p / real_of_int R)"
    using R_pos by (simp add: field_simps)
  also have "\<dots> \<le> real_of_int r * (1 - 1 / E)"
    using inv assms by (intro mult_left_mono) simp_all
  also have "1 / E = exp (k * ln (1 - real_of_int a / real_of_int s))"
  proof -
    have "1 - real_of_int a / real_of_int s = real_of_int (s - a) / real_of_int s"
      using assms by (simp add: field_simps)
    moreover have "ln (real_of_int (s - a) / real_of_int s) = - L"
      unfolding L_def using assms by (simp add: ln_div)
    ultimately have "ln (1 - real_of_int a / real_of_int s) = - L" by (simp only:)
    then have "exp (k * ln (1 - real_of_int a / real_of_int s)) = exp (- (k * L))"
      by simp
    also have "\<dots> = 1 / E"
      unfolding E_def by (simp only: exp_minus inverse_eq_divide)
    finally show ?thesis by simp
  qed
  finally show ?thesis unfolding k_def .
qed

lemma round_trip_general:
  assumes "s > 0" "r > 0" "0 < c" "c < 1000000" "0 < d"
    and pw1: "power_fn (d + r) r c MAX_CRR = Inr (R1, p1)"
    and t: "t = (s * R1) div 2 ^ p1 - s"
    and sale: "calculateSaleReturn s r c t = Inr v"
  shows "v \<le> d"
proof -
  define g where "g = real_of_int c / 1000000"
  define u where "u = real_of_int d / real_of_int r"
  define w where "w = real_of_int t / real_of_int s"
  have g: "0 < g" "g \<le> 1" using assms by (simp_all add: g_def)
  have u: "0 \<le> u" using assms by (simp add: u_def)
  have buy: "1 + w \<le> exp (g * ln (1 + u))"
    unfolding g_def u_def w_def using assms by (intro purchase_real_bound) simp_all
  have t_nonneg: "0 \<le> t"
  proof -
    have "2 ^ p1 \<le> R1"
      using power_fn_result(3)[OF pw1] assms by (simp add: MAX_CRR_def)
    with le_shift_of_scaled[of s p1 R1] assms show ?thesis by (simp add: t)
  qed
  have t_le: "t \<le> s"
    using sale by (auto simp: calculateSaleReturn_def split: if_splits)
  consider "t = 0" | "t = s" | "0 < t" "t < s" using t_nonneg t_le by linarith
  then show ?thesis
  proof cases
    case 1
    with sale assms show ?thesis by (simp add: calculateSaleReturn_def MAX_CRR_def)
  next
    case 2
    with sale assms have v: "v = r" by (simp add: calculateSaleReturn_def MAX_CRR_def)
    have "w = 1" using 2 assms by (simp add: w_def)
    with buy have "2 \<le> exp (g * ln (1 + u))" by simp
    also have "\<dots> \<le> exp (1 * ln (1 + u))"
      using g u by (intro iffD2[OF exp_le_cancel_iff] mult_right_mono) simp_all
    also have "\<dots> = 1 + u" using u by simp
    finally have "1 \<le> u" by simp
    then have "real_of_int r \<le> real_of_int d"
      using assms by (simp add: u_def field_simps)
    then show ?thesis by (simp add: v)
  next
    case 3
    from sale_general_cases[OF sale] 3 assms obtain R2 p2
      where pw2: "power_fn s (s - t) MAX_CRR c = Inr (R2, p2)"
        and v: "v = (r * R2 - r * 2 ^ p2) div R2"
      by (metis less_irrefl)
    have w: "0 \<le> w" "w < 1" using 3 assms by (simp_all add: w_def)
    have "real_of_int v \<le> real_of_int r * (1 - exp (1 / g * ln (1 - w)))"
      unfolding g_def w_def using assms 3 by (intro sale_real_bound[OF _ _ _ _ _ _ pw2 v]) simp_all
    also have "\<dots> \<le> real_of_int r * (1 - (1 - u))"
      using round_trip_real[OF g u w buy] assms by (intro mult_left_mono) simp_all
    also have "\<dots> = real_of_int d"
      using assms by (simp add: u_def)
    finally show ?thesis by simp
  qed
qed

lemma round_trip_linear:
  assumes "s > 0" "r > 0" "0 \<le> d"
    and buy: "calculatePurchaseReturn s r 1000000 d = Inr t"
    and sale: "calculateSaleReturn s r 1000000 t = Inr v"
  shows "v \<le> d"
proof -
  have t: "t = s * d div r"
    using buy assms
    by (auto simp: calculatePurchaseReturn_def MAX_CRR_def safeMul_def split: if_splits)
  have tr: "t * r \<le> s * d"
  proof -
    have "s * d = (s * d div r) * r + s * d mod r" by simp
    moreover have "0 \<le> s * d mod r" using assms by simp
    ultimately show ?thesis unfolding t by linarith
  qed
  have whole: "r * s div s = r" using assms by simp
  have v: "v = r * t div s"
    using sale assms whole
    by (auto simp: calculateSaleReturn_def MAX_CRR_def safeMul_def split: if_splits)
  have "r * t div s \<le> s * d div s"
    using tr assms by (intro zdiv_mono1) (simp_all add: mult.commute)
  then show ?thesis using assms by (simp add: v)
qed

text \<open>
  C1. For every valid pool state (\<open>s > 0\<close>, \<open>r > 0\<close>, \<open>c\<close> in \<open>(0, 1000000]\<close>) and every
  deposit amount \<open>d \<ge> 0\<close>: if \<open>calculatePurchaseReturn(s, r, c, d)\<close> succeeds and returns
  \<open>t\<close>, and \<open>calculateSaleReturn(s, r, c, t)\<close> succeeds too, then the sale returns at most
  \<open>d\<close>. Selling back what was just bought, at the same pool state, never yields more
  reserve than was deposited.
\<close>

theorem round_trip_bound:
  assumes "s > 0" "r > 0" "0 < c" "c \<le> 1000000" "0 \<le> d"
    and buy: "calculatePurchaseReturn s r c d = Inr t"
    and sale: "calculateSaleReturn s r c t = Inr v"
  shows "v \<le> d"
proof (cases "d = 0")
  case True
  with buy assms have "t = 0" by (simp add: calculatePurchaseReturn_def MAX_CRR_def)
  with sale assms have "v = 0" by (simp add: calculateSaleReturn_def MAX_CRR_def)
  with True show ?thesis by simp
next
  case d: False
  show ?thesis
  proof (cases "c = 1000000")
    case True
    with assms show ?thesis by (intro round_trip_linear[of s r d t v]) simp_all
  next
    case False
    from purchase_general_cases[OF buy False d] obtain R1 p1
      where "power_fn (d + r) r c MAX_CRR = Inr (R1, p1)" "t = (s * R1) div 2 ^ p1 - s"
      by blast
    with assms d False sale show ?thesis
      by (intro round_trip_general[of s r c d R1 p1 t v]) simp_all
  qed
qed

theorem round_trip_bound_witness:
  "(1000::int) > 0 \<and> (0::int) < 500000 \<and> (500000::int) \<le> 1000000 \<and> (0::int) \<le> 1000
   \<and> calculatePurchaseReturn 1000 1000 500000 1000 = Inr 414
   \<and> calculateSaleReturn 1000 1000 500000 414 = Inr 656
   \<and> (656::int) \<le> 1000"
  using round_trip_bound[OF _ _ _ _ _ purchase_example sale_example]
    purchase_example sale_example
  by simp

text \<open>
  Amounts are nonnegative (the inputs of the purchase are \<open>depositAmount \<ge> 0\<close>). The module
  itself has no check of the sign: a negative deposit that leaves the base below the
  reserve buys nothing.
\<close>

lemma negative_deposit_buys_nothing:
  "calculatePurchaseReturn 1000 1000 500000 (- 1) = Inr 0"
  by code_simp

end
